theory Spec2Isabelle
  imports Main "HOL-Library.Word" "HOL-Library.Signed_Division" "HOL-Library.AList"
    "HOL-Library.Multiset"
begin

unbundle bit_operations_syntax

section \<open>A persisted, fixed-depth Merkle tree (src/src/merkle_tree.ts)\<close>

text \<open>
  The class \<^verbatim>\<open>MerkleTree\<close> keeps a root digest, a node cache (a \<^verbatim>\<open>Map\<close> from string
  keys to buffers) and a reference to a LevelUp store.  The model is a shallow embedding:
  the object is a record, every method takes the record and returns the updated one,
  a rejected promise or a \<^verbatim>\<open>throw\<close> is the left injection of a sum.

  Numbers.  An index is a JavaScript \<^verbatim>\<open>number\<close>; the model takes the integer-valued ones,
  as \<^typ>\<open>int\<close>.  \<^verbatim>\<open>Math.floor(i / 2)\<close> is \<open>i div 2\<close> (both round down), and
  \<^verbatim>\<open>i % 2\<close> is the remainder that takes the sign of \<open>i\<close>, \<open>i smod 2\<close>.  On doubles
  this arithmetic is exact up to \<open>2 ^ 53\<close>; fractions, NaN and larger magnitudes are
  outside the model.  Heights are never negative: \<^typ>\<open>nat\<close>.  So is the depth of a
  tree; a negative depth argument fails the check of the constructor as 0 does.

  The store.  LevelUp is outside the class; the model is a map from keys to buffers, and
  a boolean \<open>db_ok\<close> stands for its answer to the one write a method sends (a direct
  \<^verbatim>\<open>put\<close>, or the \<^verbatim>\<open>write\<close> of a batch).
\<close>

subsection \<open>Numbers\<close>

text \<open>
  The integers that a double holds exactly together with their neighbours
  (\<^verbatim>\<open>Number.isSafeInteger\<close>).  For such an index the sums, differences and halves that the
  methods compute are those of the model (\<^verbatim>\<open>i + 1\<close> rounds back to \<^verbatim>\<open>i\<close> from \<open>2 ^ 53\<close>
  on), and a template string prints every digit of it (from \<open>10 ^ 21\<close> on it prints an
  exponent).  Every index of a leaf is one, since the depth is at most 32; what is
  proved of a rejected commit and of arguments that are not validated, for indices
  outside the leaves too, carries this bound.
\<close>

definition safeInteger :: "int \<Rightarrow> bool" where
  "safeInteger i = (- (2 ^ 53) < i \<and> i < 2 ^ 53)"

subsection \<open>Buffers\<close>

type_synonym buffer = "8 word list"

datatype error = BadDepth | RangeError | DbError | NotANumber

definition MAX_DEPTH :: nat where
  "MAX_DEPTH = 32"

definition LEAF_BYTES :: nat where
  "LEAF_BYTES = 64"

text \<open>\<^verbatim>\<open>Buffer.alloc(n)\<close>: \<open>n\<close> zero bytes.\<close>

definition alloc :: "nat \<Rightarrow> buffer" where
  "alloc n = replicate n 0"

text \<open>\<^verbatim>\<open>source.copy(target)\<close>: as many bytes of the source as fit overwrite the start of
  the target.\<close>

definition copy :: "buffer \<Rightarrow> buffer \<Rightarrow> buffer" where
  "copy source target = take (length target) source @ drop (length source) target"

text \<open>The four bytes of an unsigned 32-bit number, least significant first.\<close>

definition u32le :: "nat \<Rightarrow> buffer" where
  "u32le n = map (\<lambda>k. word_of_nat (n div 256 ^ k)) [0, 1, 2, 3]"

text \<open>\<^verbatim>\<open>buf.writeUInt32LE(v, offset)\<close> throws a RangeError when the number does not fit
  32 bits or the four bytes do not fit the buffer.\<close>

definition writeUInt32LE :: "buffer \<Rightarrow> nat \<Rightarrow> nat \<Rightarrow> error + buffer" where
  "writeUInt32LE buf v offset =
     (if 2 ^ 32 \<le> v \<or> length buf < offset + 4 then Inl RangeError
      else Inr (take offset buf @ u32le v @ drop (offset + 4) buf))"

text \<open>\<^verbatim>\<open>buf.readUInt32LE(offset)\<close> throws a RangeError when fewer than four bytes are
  left at the offset.\<close>

definition readUInt32LE :: "buffer \<Rightarrow> nat \<Rightarrow> error + nat" where
  "readUInt32LE buf offset =
     (if length buf < offset + 4 then Inl RangeError
      else Inr (unat (buf ! offset) + 256 * unat (buf ! (offset + 1))
                + 256 ^ 2 * unat (buf ! (offset + 2)) + 256 ^ 3 * unat (buf ! (offset + 3))))"

subsection \<open>Numbers in template strings\<close>

definition digit_char :: "nat \<Rightarrow> char" where
  "digit_char d = ''0123456789'' ! d"

definition is_digit :: "char \<Rightarrow> bool" where
  "is_digit c = (c \<in> set ''0123456789'')"

definition digit_val :: "char \<Rightarrow> nat" where
  "digit_val c = of_char c - 48"

text \<open>The decimal digits of a natural number, as \<^verbatim>\<open>`${n}`\<close> prints them (below
  \<open>10 ^ 21\<close>; see \<^const>\<open>safeInteger\<close>).\<close>

function showNat :: "nat \<Rightarrow> string" where
  "showNat n = (if n < 10 then [digit_char n] else showNat (n div 10) @ [digit_char (n mod 10)])"
  by pat_completeness auto
termination
  by (relation "measure id") auto

declare showNat.simps [simp del]

definition showInt :: "int \<Rightarrow> string" where
  "showInt i = (if i < 0 then CHR ''-'' # showNat (nat (- i)) else showNat (nat i))"

subsection \<open>The hasher and the store\<close>

text \<open>
  \<^verbatim>\<open>Sha256Hasher\<close> (src/sha256_hasher.ts) is not among the sources.  The tree uses two of
  its methods and nothing of what they compute, so the model takes them as a parameter.
\<close>

record hasher =
  hash :: "buffer \<Rightarrow> buffer"
  compress :: "buffer \<Rightarrow> buffer \<Rightarrow> buffer"

text \<open>The LevelUp store, seen through \<^verbatim>\<open>get\<close> and \<^verbatim>\<open>put\<close>: a map from keys to buffers
  (a string key and the buffer of its bytes name the same entry).  A chained batch is the
  list of its puts, applied in order by \<^verbatim>\<open>write\<close>.\<close>

type_synonym store = "string \<rightharpoonup> buffer"
type_synonym batch = "(string \<times> buffer) list"

definition batch_put :: "batch \<Rightarrow> string \<Rightarrow> buffer \<Rightarrow> batch" where
  "batch_put b k v = b @ [(k, v)]"

definition batch_apply :: "batch \<Rightarrow> store \<Rightarrow> store" where
  "batch_apply b s = fold (\<lambda>(k, v) m. m(k \<mapsto> v)) b s"

record tree =
  name :: string
  depth :: nat
  root :: buffer
  cache :: "string \<rightharpoonup> buffer"
  db :: store

type_synonym hash_path = "(buffer \<times> buffer) list"

subsection \<open>The private methods\<close>

fun getEmptyNodeHash :: "hasher \<Rightarrow> nat \<Rightarrow> buffer" where
  "getEmptyNodeHash H height =
     (if height = 0 then hash H (alloc LEAF_BYTES)
      else (let childHash = getEmptyNodeHash H (height - 1) in compress H childHash childHash))"

declare getEmptyNodeHash.simps [simp del]

definition nodeKey :: "string \<Rightarrow> nat \<Rightarrow> int \<Rightarrow> string" where
  "nodeKey nm height index = nm @ ''/node/'' @ showNat height @ ''/'' @ showInt index"

text \<open>\<^verbatim>\<open>getNode\<close>: the cache, then the store, then the empty hash of the height; a value
  found outside the cache is put into it.  (A buffer is always truthy, so \<^verbatim>\<open>if (cached)\<close>
  asks whether the key is there.)\<close>

definition getNode :: "hasher \<Rightarrow> tree \<Rightarrow> int \<Rightarrow> nat \<Rightarrow> buffer \<times> tree" where
  "getNode H t index height =
     (let key = nodeKey (name t) height index in
      case cache t key of
        Some cached \<Rightarrow> (cached, t)
      | None \<Rightarrow>
          (case db t key of
             Some v \<Rightarrow> (v, t\<lparr>cache := (cache t)(key \<mapsto> v)\<rparr>)
           | None \<Rightarrow>
               (let empty = getEmptyNodeHash H height
                in (empty, t\<lparr>cache := (cache t)(key \<mapsto> empty)\<rparr>))))"

definition updateNode :: "tree \<Rightarrow> int \<Rightarrow> nat \<Rightarrow> buffer \<Rightarrow> batch \<Rightarrow> tree \<times> batch" where
  "updateNode t index height v b =
     (let key = nodeKey (name t) height index
      in (t\<lparr>cache := (cache t)(key \<mapsto> v)\<rparr>, batch_put b key v))"

text \<open>The 40 bytes \<^verbatim>\<open>writeMetaData\<close> builds: the root copied to the front, the depth at
  offset 32.\<close>

definition metaData :: "tree \<Rightarrow> error + buffer" where
  "metaData t = writeUInt32LE (copy (root t) (alloc 40)) (depth t) 32"

text \<open>\<^verbatim>\<open>writeMetaData(batch?)\<close>: with a batch the put is staged (the batch comes back
  with one more put), without one it goes to the store at once.  \<open>db_ok\<close> is the store's
  answer to that direct put.\<close>

definition writeMetaData :: "bool \<Rightarrow> tree \<Rightarrow> batch option \<Rightarrow> error + (tree \<times> batch)" where
  "writeMetaData db_ok t batch =
     (case metaData t of
        Inl e \<Rightarrow> Inl e
      | Inr data \<Rightarrow>
          (case batch of
             Some b \<Rightarrow> Inr (t, batch_put b (name t) data)
           | None \<Rightarrow>
               if db_ok then Inr (t\<lparr>db := (db t)(name t \<mapsto> data)\<rparr>, []) else Inl DbError))"

text \<open>\<^verbatim>\<open>batch.write()\<close>: all puts or none; \<open>db_ok\<close> is the store's answer.\<close>

definition batch_write :: "bool \<Rightarrow> batch \<Rightarrow> store \<Rightarrow> error + store" where
  "batch_write db_ok b s = (if db_ok then Inr (batch_apply b s) else Inl DbError)"

subsection \<open>Construction\<close>

definition constructor :: "hasher \<Rightarrow> store \<Rightarrow> string \<Rightarrow> nat \<Rightarrow> buffer option \<Rightarrow> error + tree" where
  "constructor H s nm d r =
     (if \<not> (1 \<le> d \<and> d \<le> MAX_DEPTH) then Inl BadDepth
      else Inr \<lparr>name = nm, depth = d,
                root = (case r of Some r' \<Rightarrow> r' | None \<Rightarrow> getEmptyNodeHash H d),
                cache = Map.empty, db = s\<rparr>)"

text \<open>The static \<^verbatim>\<open>new(db, name, depth = MAX_DEPTH)\<close>; an absent depth argument is
  \<open>None\<close>.\<close>

definition new :: "hasher \<Rightarrow> bool \<Rightarrow> store \<Rightarrow> string \<Rightarrow> nat option \<Rightarrow> error + tree" where
  "new H db_ok s nm d_opt =
     (let d = (case d_opt of Some d \<Rightarrow> d | None \<Rightarrow> MAX_DEPTH) in
      case s nm of
        Some meta \<Rightarrow>
          (let r = take 32 meta in
           case readUInt32LE meta 32 of
             Inl e \<Rightarrow> Inl e
           | Inr d' \<Rightarrow> constructor H s nm d' (Some r))
      | None \<Rightarrow>
          (case constructor H s nm d None of
             Inl e \<Rightarrow> Inl e
           | Inr t \<Rightarrow>
               (case writeMetaData db_ok t None of
                  Inl e \<Rightarrow> Inl e
                | Inr (t', b) \<Rightarrow> Inr t')))"

definition getRoot :: "tree \<Rightarrow> buffer" where
  "getRoot t = root t"

subsection \<open>Hash paths\<close>

text \<open>\<^verbatim>\<open>currentIndex % 2 === 1\<close>, and the index of the other child of the same parent as
  the methods compute it, \<^verbatim>\<open>isRight ? currentIndex - 1 : currentIndex + 1\<close> (exact for a
  \<^const>\<open>safeInteger\<close>).\<close>

definition isRight :: "int \<Rightarrow> bool" where
  "isRight i = (i smod 2 = 1)"

definition pairIndex :: "int \<Rightarrow> int" where
  "pairIndex i = (if isRight i then i - 1 else i + 1)"

lemma getNode_depth [simp]: "depth (snd (getNode H t i h)) = depth t"
  by (simp add: getNode_def Let_def split: option.splits)

lemma getNode_name [simp]: "name (snd (getNode H t i h)) = name t"
  by (simp add: getNode_def Let_def split: option.splits)

lemma getNode_root [simp]: "root (snd (getNode H t i h)) = root t"
  by (simp add: getNode_def Let_def split: option.splits)

lemma getNode_db [simp]: "db (snd (getNode H t i h)) = db t"
  by (simp add: getNode_def Let_def split: option.splits)

text \<open>The loop of \<^verbatim>\<open>getHashPath\<close>, from \<open>height\<close> on.\<close>

function getHashPath_loop ::
  "hasher \<Rightarrow> nat \<Rightarrow> int \<Rightarrow> hash_path \<Rightarrow> tree \<Rightarrow> hash_path \<times> tree" where
  "getHashPath_loop H height currentIndex path t =
     (if height < depth t then
        (let pairHash_t = getNode H t (pairIndex currentIndex) height;
             currentHash_t = getNode H (snd pairHash_t) currentIndex height;
             pairHash = fst pairHash_t;
             currentHash = fst currentHash_t
         in getHashPath_loop H (height + 1) (currentIndex div 2)
              (path @ [if isRight currentIndex then (pairHash, currentHash)
                       else (currentHash, pairHash)])
              (snd currentHash_t))
      else (path, t))"
  by pat_completeness auto
termination
  by (relation "measure (\<lambda>(H, height, i, p, t). depth t - height)") auto

declare getHashPath_loop.simps [simp del]

definition getHashPath :: "hasher \<Rightarrow> tree \<Rightarrow> int \<Rightarrow> hash_path \<times> tree" where
  "getHashPath H t index = getHashPath_loop H 0 index [] t"

subsection \<open>Updating one element\<close>

lemma updateNode_depth [simp]: "depth (fst (updateNode t i h v b)) = depth t"
  by (simp add: updateNode_def Let_def)

text \<open>The loop of \<^verbatim>\<open>updateElement\<close>, from \<open>height\<close> on; it returns the last
  \<^verbatim>\<open>currentValue\<close>.\<close>

function updateElement_loop ::
  "hasher \<Rightarrow> nat \<Rightarrow> int \<Rightarrow> buffer \<Rightarrow> tree \<Rightarrow> batch \<Rightarrow> buffer \<times> tree \<times> batch" where
  "updateElement_loop H height currentIndex currentValue t b =
     (if height < depth t then
        (let pairHash_t = getNode H t (pairIndex currentIndex) height;
             pairHash = fst pairHash_t;
             currentValue' =
               (if isRight currentIndex then compress H pairHash currentValue
                else compress H currentValue pairHash);
             currentIndex' = currentIndex div 2;
             t_b = updateNode (snd pairHash_t) currentIndex' (height + 1) currentValue' b
         in updateElement_loop H (height + 1) currentIndex' currentValue' (fst t_b) (snd t_b))
      else (currentValue, t, b))"
  by pat_completeness auto
termination
  by (relation "measure (\<lambda>(H, height, i, v, t, b). depth t - height)")
    (auto simp: case_prod_beta)

declare updateElement_loop.simps [simp del]

text \<open>\<^verbatim>\<open>updateElement\<close>.  The root is assigned before the metadata is staged and the
  batch written; when the write is rejected the method rejects, and the object keeps
  what was assigned before.  \<open>db_ok\<close> is the store's answer to \<^verbatim>\<open>batch.write()\<close>.\<close>

definition updateElement ::
  "hasher \<Rightarrow> bool \<Rightarrow> tree \<Rightarrow> int \<Rightarrow> buffer \<Rightarrow> (error + buffer) \<times> tree" where
  "updateElement H db_ok t index v =
     (let b = [];
          currentValue = hash H v;
          t_b = updateNode t index 0 currentValue b;
          r = updateElement_loop H 0 index currentValue (fst t_b) (snd t_b);
          t1 = (fst (snd r))\<lparr>root := fst r\<rparr>
      in case writeMetaData db_ok t1 (Some (snd (snd r))) of
           Inl e \<Rightarrow> (Inl e, t1)
         | Inr (t2, b2) \<Rightarrow>
             (case batch_write db_ok b2 (db t2) of
                Inl e \<Rightarrow> (Inl e, t2)
              | Inr s \<Rightarrow> (Inr (root t2), t2\<lparr>db := s\<rparr>)))"

subsection \<open>Updating many elements\<close>

text \<open>
  \<^verbatim>\<open>nodeUpdates\<close> is a \<^verbatim>\<open>Map<string, Buffer>\<close> with keys \<^verbatim>\<open>`${height}:${index}`\<close>.  A JavaScript
  map iterates in insertion order and \<^verbatim>\<open>set\<close> on a key that is there keeps its place:
  an association list under \<^const>\<open>AList.update\<close>, read with \<^const>\<open>map_of\<close>.  A \<^verbatim>\<open>Set\<close>
  keeps the first of equal elements.
\<close>

type_synonym pending = "(string \<times> buffer) list"

definition updKey :: "nat \<Rightarrow> int \<Rightarrow> string" where
  "updKey height index = showNat height @ '':'' @ showInt index"

definition startsWith :: "string \<Rightarrow> string \<Rightarrow> bool" where
  "startsWith s p = (take (length p) s = p)"

text \<open>\<^verbatim>\<open>s.split(c)\<close> for a separator of one character.\<close>

fun split :: "char \<Rightarrow> string \<Rightarrow> string list" where
  "split c [] = [[]]"
| "split c (x # xs) =
     (if x = c then [] # split c xs
      else (case split c xs of w # ws \<Rightarrow> (x # w) # ws | [] \<Rightarrow> [[x]]))"

definition readNat :: "string \<Rightarrow> nat" where
  "readNat s = foldl (\<lambda>acc c. 10 * acc + digit_val c) 0 s"

definition is_space :: "char \<Rightarrow> bool" where
  "is_space c = (c \<in> set [CHR '' '', CHR 0x09, CHR 0x0A, CHR 0x0B, CHR 0x0C, CHR 0x0D])"

definition is_hex_digit :: "char \<Rightarrow> bool" where
  "is_hex_digit c = (c \<in> set ''0123456789abcdefABCDEF'')"

definition hex_val :: "char \<Rightarrow> nat" where
  "hex_val c =
     (if is_digit c then of_char c - 48
      else if c \<in> set ''abcdef'' then of_char c - 87
      else of_char c - 55)"

definition readHex :: "string \<Rightarrow> nat" where
  "readHex s = foldl (\<lambda>acc c. 16 * acc + hex_val c) 0 s"

text \<open>
  \<^verbatim>\<open>parseInt(s)\<close> with no radix: leading white space, a sign, a hexadecimal prefix, then
  the longest run of digits; no digit at all gives NaN, which is \<open>None\<close> here.
  \<^verbatim>\<open>parseInt(undefined)\<close> is NaN too.
\<close>

definition parseInt :: "string \<Rightarrow> int option" where
  "parseInt s =
     (let s1 = dropWhile is_space s;
          neg = (s1 \<noteq> [] \<and> hd s1 = CHR ''-'');
          s2 = (if s1 \<noteq> [] \<and> (hd s1 = CHR ''-'' \<or> hd s1 = CHR ''+'') then tl s1 else s1);
          hex = (startsWith s2 ''0x'' \<or> startsWith s2 ''0X'');
          ds = (if hex then takeWhile is_hex_digit (drop 2 s2) else takeWhile is_digit s2);
          n = (if hex then readHex ds else readNat ds)
      in if ds = [] then None else Some (if neg then - int n else int n))"

definition js_set :: "'a list \<Rightarrow> 'a list" where
  "js_set xs = rev (remdups (rev xs))"

text \<open>The \<^verbatim>\<open>indices\<close> of one height: the keys that start with \<^verbatim>\<open>`${height}:`\<close>, each cut at
  the colons and its second piece parsed.\<close>

definition levelIndices :: "nat \<Rightarrow> pending \<Rightarrow> int option list" where
  "levelIndices height nodeUpdates =
     js_set (map (\<lambda>key. case drop 1 (split CHR '':'' key) of [] \<Rightarrow> None | p # ps \<Rightarrow> parseInt p)
               (filter (\<lambda>key. startsWith key (showNat height @ '':'')) (map fst nodeUpdates)))"

text \<open>The first loop: every leaf is hashed, written and recorded as pending.\<close>

primrec updateLeaves ::
  "hasher \<Rightarrow> (int \<times> buffer) list \<Rightarrow> tree \<Rightarrow> batch \<Rightarrow> pending \<Rightarrow> tree \<times> batch \<times> pending" where
  "updateLeaves H [] t b nodeUpdates = (t, b, nodeUpdates)"
| "updateLeaves H (u # updates) t b nodeUpdates =
     (let index = fst u;
          leafValue = hash H (snd u);
          t_b = updateNode t index 0 leafValue b
      in updateLeaves H updates (fst t_b) (snd t_b)
           (AList.update (updKey 0 index) leafValue nodeUpdates))"

text \<open>The loop over the \<^verbatim>\<open>indices\<close> of one height.  A pending value is preferred to the
  node the tree reports (\<^verbatim>\<open>nodeUpdates.get(k) || await this.getNode(..)\<close>; a buffer is
  truthy, so the right operand is evaluated only when the key is absent).\<close>

primrec updateParents ::
  "hasher \<Rightarrow> nat \<Rightarrow> pending \<Rightarrow> int list \<Rightarrow> tree \<Rightarrow> batch \<Rightarrow> (int \<times> buffer) list
     \<Rightarrow> tree \<times> batch \<times> (int \<times> buffer) list" where
  "updateParents H height nodeUpdates [] t b currentLevelUpdates = (t, b, currentLevelUpdates)"
| "updateParents H height nodeUpdates (index # indices) t b currentLevelUpdates =
     (let parentIndex = index div 2;
          siblingIndex = pairIndex index;
          currentValue_t =
            (case map_of nodeUpdates (updKey height index) of
               Some v \<Rightarrow> (v, t)
             | None \<Rightarrow> getNode H t index height);
          siblingValue_t =
            (case map_of nodeUpdates (updKey height siblingIndex) of
               Some v \<Rightarrow> (v, snd currentValue_t)
             | None \<Rightarrow> getNode H (snd currentValue_t) siblingIndex height);
          currentValue = fst currentValue_t;
          siblingValue = fst siblingValue_t;
          parentValue =
            (if isRight index then compress H siblingValue currentValue
             else compress H currentValue siblingValue);
          t_b = updateNode (snd siblingValue_t) parentIndex (height + 1) parentValue b
      in updateParents H height nodeUpdates indices (fst t_b) (snd t_b)
           (AList.update parentIndex parentValue currentLevelUpdates))"

lemma updateParents_depth [simp]:
  "depth (fst (updateParents H height nu indices t b clu)) = depth t"
  by (induction indices arbitrary: t b clu) (simp_all add: Let_def split: option.splits)

text \<open>
  The loop over the heights.  An index that \<^verbatim>\<open>parseInt\<close> reads as NaN is outside the
  integers of the model: the model stops there with \<open>NotANumber\<close>
  (\<open>updateLevels_no_NaN\<close> below: with keys written by this method, it never does).
\<close>

function updateLevels ::
  "hasher \<Rightarrow> nat \<Rightarrow> tree \<Rightarrow> batch \<Rightarrow> pending \<Rightarrow> error + (tree \<times> batch \<times> pending)" where
  "updateLevels H height t b nodeUpdates =
     (if height < depth t then
        (case those (levelIndices height nodeUpdates) of
           None \<Rightarrow> Inl NotANumber
         | Some indices \<Rightarrow>
             (let r = updateParents H height nodeUpdates indices t b [];
                  nodeUpdates' =
                    fold (\<lambda>(index, v). AList.update (updKey (height + 1) index) v)
                      (snd (snd r)) nodeUpdates
              in updateLevels H (height + 1) (fst r) (fst (snd r)) nodeUpdates'))
      else Inr (t, b, nodeUpdates))"
  by pat_completeness auto
termination
  by (relation "measure (\<lambda>(H, height, t, b, nu). depth t - height)") auto

declare updateLevels.simps [simp del]

definition updateElements ::
  "hasher \<Rightarrow> bool \<Rightarrow> tree \<Rightarrow> (int \<times> buffer) list \<Rightarrow> (error + buffer) \<times> tree" where
  "updateElements H db_ok t updates =
     (if length updates = 0 then (Inr (root t), t)
      else
        (let leaves = updateLeaves H updates t [] []
         in case updateLevels H 0 (fst leaves) (fst (snd leaves)) (snd (snd leaves)) of
              Inl e \<Rightarrow> (Inl e, fst leaves)
            | Inr (t1, b1, nodeUpdates) \<Rightarrow>
                (let t2 = t1\<lparr>root := (case map_of nodeUpdates (updKey (depth t1) 0) of
                                         Some r \<Rightarrow> r | None \<Rightarrow> root t1)\<rparr>
                 in case writeMetaData db_ok t2 (Some b1) of
                      Inl e \<Rightarrow> (Inl e, t2)
                    | Inr (t3, b3) \<Rightarrow>
                        (case batch_write db_ok b3 (db t3) of
                           Inl e \<Rightarrow> (Inl e, t3)
                         | Inr s \<Rightarrow> (Inr (root t3), t3\<lparr>db := s\<rparr>)))))"

section \<open>Notions of the specification and of the proofs\<close>

text \<open>The digest the tree reports for the node \<open>(height, index)\<close>: what \<^verbatim>\<open>getNode\<close> returns.\<close>

definition readNode :: "hasher \<Rightarrow> tree \<Rightarrow> int \<Rightarrow> nat \<Rightarrow> buffer" where
  "readNode H t index height = fst (getNode H t index height)"

text \<open>One pair of a hash path, as the loop of \<^verbatim>\<open>getHashPath\<close> pushes it.\<close>

definition layerPair :: "(int \<Rightarrow> nat \<Rightarrow> buffer) \<Rightarrow> int \<Rightarrow> nat \<Rightarrow> buffer \<times> buffer" where
  "layerPair rd c h =
     (if isRight c then (rd (pairIndex c) h, rd c h) else (rd c h, rd (pairIndex c) h))"

text \<open>Compressing from a leaf digest to the root along the siblings of an index, with the
  test of the code for left and right.\<close>

primrec climb :: "hasher \<Rightarrow> buffer \<Rightarrow> int \<Rightarrow> buffer list \<Rightarrow> buffer" where
  "climb H cur c [] = cur"
| "climb H cur c (s # ss) =
     climb H (if isRight c then compress H s cur else compress H cur s) (c div 2) ss"

text \<open>The siblings the loop of \<^verbatim>\<open>updateElement\<close> reads from height \<open>h\<close> on, when it is
  at index \<open>c\<close> there.\<close>

definition siblings :: "(int \<Rightarrow> nat \<Rightarrow> buffer) \<Rightarrow> nat \<Rightarrow> nat \<Rightarrow> int \<Rightarrow> buffer list" where
  "siblings rd d h c = map (\<lambda>k. rd (pairIndex (c div 2 ^ (k - h))) k) [h..<d]"

text \<open>The last put of every key of the batch is what the cache holds under the key:
  \<^verbatim>\<open>updateNode\<close> writes both.\<close>

definition staged :: "tree \<Rightarrow> batch \<Rightarrow> bool" where
  "staged t b = (\<forall>k \<in> fst ` set b. map_of (rev b) k = cache t k)"

text \<open>The pairs of a hash path from height \<open>h\<close> on.\<close>

definition pathPairs :: "(int \<Rightarrow> nat \<Rightarrow> buffer) \<Rightarrow> nat \<Rightarrow> nat \<Rightarrow> int \<Rightarrow> hash_path" where
  "pathPairs rd d h c = map (\<lambda>k. layerPair rd (c div 2 ^ (k - h)) k) [h..<d]"

text \<open>The tree and the batch of \<^verbatim>\<open>updateElement\<close> after the leaf is stored.\<close>

definition leafState :: "hasher \<Rightarrow> tree \<Rightarrow> int \<Rightarrow> buffer \<Rightarrow> tree \<times> batch" where
  "leafState H t i v = updateNode t i 0 (hash H v) []"

text \<open>The result of the loop of \<^verbatim>\<open>updateElement\<close>.\<close>

definition loopResult :: "hasher \<Rightarrow> tree \<Rightarrow> int \<Rightarrow> buffer \<Rightarrow> buffer \<times> tree \<times> batch" where
  "loopResult H t i v =
     updateElement_loop H 0 i (hash H v) (fst (leafState H t i v)) (snd (leafState H t i v))"

text \<open>The root \<^verbatim>\<open>updateElement\<close> computes, from the nodes the tree reports before the call.\<close>

definition newRoot :: "hasher \<Rightarrow> tree \<Rightarrow> int \<Rightarrow> buffer \<Rightarrow> buffer" where
  "newRoot H t i v = climb H (hash H v) i (siblings (readNode H t) (depth t) 0 i)"

text \<open>A small hasher, to evaluate the model at concrete inputs: the hash of a buffer is one
  byte, and \<open>compress\<close> concatenates, so that a digest shows the nodes it was computed from.
  The empty hash of height 0 is \<open>[1]\<close>.\<close>

definition toyHasher :: hasher where
  "toyHasher = \<lparr>hash = (\<lambda>b. [1 + sum_list b]), compress = (\<lambda>l r. l @ r)\<rparr>"

text \<open>An empty tree of depth 1.\<close>

definition tree1 :: tree where
  "tree1 = \<lparr>name = ''t'', depth = 1, root = [1, 1], cache = Map.empty, db = Map.empty\<rparr>"

text \<open>A tree of depth 1 whose cache holds the digest \<open>[6]\<close> for the leaf at index 0.\<close>

definition tree2 :: tree where
  "tree2 = \<lparr>name = ''t'', depth = 1, root = [6, 1],
            cache = [nodeKey ''t'' 0 0 \<mapsto> [6], nodeKey ''t'' 0 1 \<mapsto> [1], nodeKey ''t'' 1 0 \<mapsto> [6, 1]],
            db = Map.empty\<rparr>"

text \<open>The table of empty hashes as the specification defines it: \<open>E[0]\<close> is the hash of 64
  zero bytes, \<open>E[h]\<close> compresses \<open>E[h - 1]\<close> with itself.\<close>

primrec emptyHash :: "hasher \<Rightarrow> nat \<Rightarrow> buffer" where
  "emptyHash H 0 = hash H (replicate 64 0)"
| "emptyHash H (Suc h) = compress H (emptyHash H h) (emptyHash H h)"

text \<open>Replaying a hash path as the specification words it: start from the leaf digest and
  compress with each pair in leaf-to-root order, the path's own node on the right iff
  \<open>right\<close> holds of the index at that height (\<^const>\<open>odd\<close> in the specification).\<close>

primrec replay :: "hasher \<Rightarrow> (int \<Rightarrow> bool) \<Rightarrow> buffer \<Rightarrow> int \<Rightarrow> hash_path \<Rightarrow> buffer" where
  "replay H right cur i [] = cur"
| "replay H right cur i (p # ps) =
     replay H right (if right i then compress H (fst p) cur else compress H cur (snd p)) (i div 2) ps"

text \<open>The hash path as the specification words it: at each height the sibling index is
  \<open>i XOR 1\<close>, the own node stands on the right iff \<open>i\<close> is odd, and \<open>i\<close> is halved.\<close>

definition hashPathSpec :: "hasher \<Rightarrow> tree \<Rightarrow> int \<Rightarrow> hash_path" where
  "hashPathSpec H t i =
     map (\<lambda>h. let c = i div 2 ^ h; s = c XOR 1
              in if odd c then (readNode H t s h, readNode H t c h)
                 else (readNode H t c h, readNode H t s h))
       [0..<depth t]"

text \<open>The metadata record: the root, the depth in four bytes, four unused bytes.\<close>

definition metaBytes :: "buffer \<Rightarrow> nat \<Rightarrow> buffer" where
  "metaBytes r d = r @ u32le d @ replicate 4 0"

text \<open>A tree with a root of 32 bytes.\<close>

definition tree3 :: tree where
  "tree3 = \<lparr>name = ''t'', depth = 5, root = replicate 32 7, cache = Map.empty, db = Map.empty\<rparr>"

text \<open>Every key of the pending table was built by \<^const>\<open>updKey\<close>.\<close>

definition wfKeys :: "pending \<Rightarrow> bool" where
  "wfKeys nu = (\<forall>key \<in> fst ` set nu. \<exists>k x. key = updKey k x)"

text \<open>The nodes above the leaves of a set of updates: \<open>(h, x)\<close> is touched when an updated
  index lies below it.\<close>

definition touched :: "(int \<rightharpoonup> buffer) \<Rightarrow> nat \<Rightarrow> int \<Rightarrow> bool" where
  "touched m h x = (\<exists>i \<in> dom m. i div 2 ^ h = x)"

text \<open>The digest of a node once every leaf of \<open>m\<close> is written: a touched node compresses
  its two children, any other node is what the tree reported before (\<open>rd\<close>).\<close>

primrec finalNode ::
  "hasher \<Rightarrow> (int \<Rightarrow> nat \<Rightarrow> buffer) \<Rightarrow> (int \<rightharpoonup> buffer) \<Rightarrow> nat \<Rightarrow> int \<Rightarrow> buffer" where
  "finalNode H rd m 0 x = (case m x of Some v \<Rightarrow> hash H v | None \<Rightarrow> rd x 0)"
| "finalNode H rd m (Suc h) x =
     (if touched m (Suc h) x
      then compress H (finalNode H rd m h (2 * x)) (finalNode H rd m h (2 * x + 1))
      else rd x (Suc h))"

text \<open>The last value submitted for each index.\<close>

definition leafMap :: "(int \<times> buffer) list \<Rightarrow> (int \<rightharpoonup> buffer) \<Rightarrow> (int \<rightharpoonup> buffer)" where
  "leafMap ups m = fold (\<lambda>u m. m(fst u \<mapsto> snd u)) ups m"

text \<open>One \<^verbatim>\<open>updateElement\<close> per pair, in the order of the list, each commit accepted.\<close>

primrec updateSequential :: "hasher \<Rightarrow> tree \<Rightarrow> (int \<times> buffer) list \<Rightarrow> tree" where
  "updateSequential H t [] = t"
| "updateSequential H t (u # us) =
     updateSequential H (snd (updateElement H True t (fst u) (snd u))) us"

text \<open>Invariants of the batch update: nodes that are not touched read as before; the pending
  table holds the final digests of the touched nodes up to a height; the tree is changed
  in its cache only.\<close>

definition readsOK :: "hasher \<Rightarrow> (int \<Rightarrow> nat \<Rightarrow> buffer) \<Rightarrow> (int \<rightharpoonup> buffer) \<Rightarrow> tree \<Rightarrow> bool" where
  "readsOK H rd m t = (\<forall>k x. \<not> touched m k x \<longrightarrow> readNode H t x k = rd x k)"

definition pendingOK ::
  "hasher \<Rightarrow> (int \<Rightarrow> nat \<Rightarrow> buffer) \<Rightarrow> (int \<rightharpoonup> buffer) \<Rightarrow> nat \<Rightarrow> pending \<Rightarrow> bool" where
  "pendingOK H rd m h nu =
     (wfKeys nu \<and>
      (\<forall>k x. map_of nu (updKey k x) =
         (if k \<le> h \<and> touched m k x then Some (finalNode H rd m k x) else None)))"

definition sameFrame :: "tree \<Rightarrow> tree \<Rightarrow> bool" where
  "sameFrame t t' = (name t' = name t \<and> depth t' = depth t \<and> root t' = root t \<and> db t' = db t)"

text \<open>\<^verbatim>\<open>nodeUpdates.get(key) || await this.getNode(index, height)\<close>.\<close>

definition readPending :: "hasher \<Rightarrow> pending \<Rightarrow> tree \<Rightarrow> int \<Rightarrow> nat \<Rightarrow> buffer \<times> tree" where
  "readPending H nu t x h =
     (case map_of nu (updKey h x) of Some v \<Rightarrow> (v, t) | None \<Rightarrow> getNode H t x h)"

text \<open>\<^verbatim>\<open>currentLevelUpdates\<close> holds final digests of touched parents.\<close>

definition cluOK ::
  "hasher \<Rightarrow> (int \<Rightarrow> nat \<Rightarrow> buffer) \<Rightarrow> (int \<rightharpoonup> buffer) \<Rightarrow> nat \<Rightarrow> (int \<times> buffer) list \<Rightarrow> bool" where
  "cluOK H rd m h clu =
     (\<forall>p \<in> set clu. touched m (Suc h) (fst p) \<and> snd p = finalNode H rd m (Suc h) (fst p))"

text \<open>The stages of \<^verbatim>\<open>updateElements\<close>: after the leaves, after the heights, and the root it
  assigns.\<close>

definition batchLeaves :: "hasher \<Rightarrow> tree \<Rightarrow> (int \<times> buffer) list \<Rightarrow> tree \<times> batch \<times> pending" where
  "batchLeaves H t ups = updateLeaves H ups t [] []"

definition batchLevels :: "hasher \<Rightarrow> tree \<Rightarrow> (int \<times> buffer) list \<Rightarrow> error + (tree \<times> batch \<times> pending)" where
  "batchLevels H t ups =
     updateLevels H 0 (fst (batchLeaves H t ups)) (fst (snd (batchLeaves H t ups)))
       (snd (snd (batchLeaves H t ups)))"

definition batchRoot :: "tree \<Rightarrow> pending \<Rightarrow> buffer" where
  "batchRoot t nu = (case map_of nu (updKey (depth t) 0) of Some r \<Rightarrow> r | None \<Rightarrow> root t)"

section \<open>Properties\<close>

subsection \<open>Keys: the template strings are injective\<close>

lemma lt10_cases:
  "d < (10::nat) \<Longrightarrow> d = 0 \<or> d = 1 \<or> d = 2 \<or> d = 3 \<or> d = 4 \<or> d = 5 \<or> d = 6 \<or> d = 7 \<or> d = 8 \<or> d = 9"
  by arith

lemma digit_val_digit_char: "d < 10 \<Longrightarrow> digit_val (digit_char d) = d"
  by (drule lt10_cases) (auto simp: digit_val_def digit_char_def)

lemma is_digit_digit_char: "d < 10 \<Longrightarrow> is_digit (digit_char d)"
  by (drule lt10_cases) (auto simp: is_digit_def digit_char_def)

lemma showNat_small: "n < 10 \<Longrightarrow> showNat n = [digit_char n]"
  by (subst showNat.simps) simp

lemma showNat_big: "\<not> n < 10 \<Longrightarrow> showNat n = showNat (n div 10) @ [digit_char (n mod 10)]"
  by (subst showNat.simps) simp

lemma showNat_digits: "c \<in> set (showNat n) \<Longrightarrow> is_digit c"
proof (induction n arbitrary: c rule: showNat.induct)
  case (1 n)
  show ?case
  proof (cases "n < 10")
    case True
    with "1.prems" show ?thesis by (simp add: showNat_small is_digit_digit_char)
  next
    case False
    with "1.prems" "1.IH" show ?thesis
      by (auto simp: showNat_big is_digit_digit_char)
  qed
qed

lemma showNat_nonempty: "showNat n \<noteq> []"
  by (subst showNat.simps) simp

lemma readNat_showNat: "readNat (showNat n) = n"
proof (induction n rule: showNat.induct)
  case (1 n)
  show ?case
  proof (cases "n < 10")
    case True
    then show ?thesis by (simp add: showNat_small readNat_def digit_val_digit_char)
  next
    case False
    with "1.IH" have "readNat (showNat (n div 10)) = n div 10" by simp
    with False show ?thesis
      by (simp add: showNat_big readNat_def digit_val_digit_char)
  qed
qed

lemma showNat_inj: "showNat a = showNat b \<Longrightarrow> a = b"
  by (metis readNat_showNat)

lemma showNat_no_minus: "CHR ''-'' \<notin> set (showNat n)"
  using showNat_digits [of "CHR ''-''" n] by (auto simp: is_digit_def)

lemma showNat_no_slash: "CHR ''/'' \<notin> set (showNat n)"
  using showNat_digits [of "CHR ''/''" n] by (auto simp: is_digit_def)

lemma showNat_no_colon: "CHR '':'' \<notin> set (showNat n)"
  using showNat_digits [of "CHR '':''" n] by (auto simp: is_digit_def)

lemma showInt_inj: "showInt a = showInt b \<Longrightarrow> a = b"
proof -
  assume eq: "showInt a = showInt b"
  have hd_nat: "hd (showNat n) \<noteq> CHR ''-''" for n
    using showNat_no_minus [of n] showNat_nonempty [of n] by (cases "showNat n") auto
  show ?thesis
  proof (cases "a < 0")
    case True
    show ?thesis
    proof (cases "b < 0")
      case True
      with \<open>a < 0\<close> eq have "nat (- a) = nat (- b)"
        by (auto simp: showInt_def dest: showNat_inj)
      with True \<open>a < 0\<close> show ?thesis by simp
    next
      case False
      with \<open>a < 0\<close> eq hd_nat [of "nat b"] show ?thesis
        by (auto simp: showInt_def dest: arg_cong [where f = hd])
    qed
  next
    case False
    show ?thesis
    proof (cases "b < 0")
      case True
      with \<open>\<not> a < 0\<close> eq hd_nat [of "nat a"] show ?thesis
        by (auto simp: showInt_def dest: arg_cong [where f = hd])
    next
      case False
      with \<open>\<not> a < 0\<close> eq have "nat a = nat b"
        by (auto simp: showInt_def dest: showNat_inj)
      with False \<open>\<not> a < 0\<close> show ?thesis by simp
    qed
  qed
qed

lemma takeWhile_sep: "c \<notin> set a \<Longrightarrow> takeWhile (\<lambda>x. x \<noteq> c) (a @ c # b) = a"
  by (induction a) auto

lemma sep_unique:
  assumes "c \<notin> set a" "c \<notin> set a'" "a @ c # b = a' @ c # b'"
  shows "a = a' \<and> b = b'"
proof -
  have "takeWhile (\<lambda>x. x \<noteq> c) (a @ c # b) = a"
    using assms(1) by (rule takeWhile_sep)
  moreover have "takeWhile (\<lambda>x. x \<noteq> c) (a' @ c # b') = a'"
    using assms(2) by (rule takeWhile_sep)
  ultimately have "a = a'" using assms(3) by simp
  with assms(3) show ?thesis by simp
qed

lemma nodeKey_inj [simp]: "nodeKey nm h i = nodeKey nm h' i' \<longleftrightarrow> h = h' \<and> i = i'"
proof
  assume "nodeKey nm h i = nodeKey nm h' i'"
  then have "showNat h @ CHR ''/'' # showInt i = showNat h' @ CHR ''/'' # showInt i'"
    by (simp add: nodeKey_def)
  then have "showNat h = showNat h' \<and> showInt i = showInt i'"
    by (rule sep_unique [OF showNat_no_slash showNat_no_slash])
  then show "h = h' \<and> i = i'"
    by (auto dest: showNat_inj showInt_inj)
qed simp

lemma nodeKey_neq_name [simp]: "nodeKey nm h i \<noteq> nm" "nm \<noteq> nodeKey nm h i"
  by (auto simp: nodeKey_def dest: arg_cong [where f = length])

subsection \<open>Reading nodes\<close>

lemma pairIndex_neq [simp]: "pairIndex c \<noteq> c" "c \<noteq> pairIndex c"
  by (simp_all add: pairIndex_def)

lemma readNode_getNode [simp]:
  "readNode H (snd (getNode H t i h)) i' h' = readNode H t i' h'"
  by (auto simp: readNode_def getNode_def Let_def split: option.splits)

lemma readNode_updateNode [simp]:
  "readNode H (fst (updateNode t i h v b)) i' h' =
     (if i' = i \<and> h' = h then v else readNode H t i' h')"
  by (auto simp: readNode_def getNode_def updateNode_def Let_def split: option.splits)

lemma readNode_root_update [simp]: "readNode H (t\<lparr>root := r\<rparr>) i h = readNode H t i h"
  by (simp add: readNode_def getNode_def Let_def split: option.splits)

lemma readNode_db_update:
  assumes "cache t (nodeKey (name t) h i) = None \<Longrightarrow>
           s (nodeKey (name t) h i) = db t (nodeKey (name t) h i)"
  shows "readNode H (t\<lparr>db := s\<rparr>) i h = readNode H t i h"
  using assms
  by (auto simp: readNode_def getNode_def Let_def split: option.splits)

lemma div2_pow_shift: "h < k \<Longrightarrow> (c::int) div 2 div 2 ^ (k - Suc h) = c div 2 ^ (k - h)"
proof -
  assume "h < k"
  then have "k - h = Suc (k - Suc h)" by simp
  moreover have "c div (2 * 2 ^ (k - Suc h)) = c div 2 div 2 ^ (k - Suc h)"
    by (rule zdiv_zmult2_eq) simp
  ultimately show ?thesis by simp
qed

lemma siblings_step:
  "h < d \<Longrightarrow> siblings rd d h c = rd (pairIndex c) h # siblings rd d (Suc h) (c div 2)"
  by (simp add: siblings_def upt_conv_Cons div2_pow_shift)

lemma siblings_done: "\<not> h < d \<Longrightarrow> siblings rd d h c = []"
  by (simp add: siblings_def)

lemma siblings_cong:
  assumes "\<And>k. h \<le> k \<Longrightarrow> k < d \<Longrightarrow> rd (pairIndex (c div 2 ^ (k - h))) k = rd' (pairIndex (c div 2 ^ (k - h))) k"
  shows "siblings rd d h c = siblings rd' d h c"
  using assms by (simp add: siblings_def)

subsection \<open>The loops of getHashPath and updateElement\<close>

lemma getNode_cache_mono: "dom (cache t) \<subseteq> dom (cache (snd (getNode H t i h)))"
  by (auto simp: getNode_def Let_def split: option.splits)

lemma updateNode_name [simp]: "name (fst (updateNode t i h v b)) = name t"
  by (simp add: updateNode_def Let_def)

lemma updateNode_root [simp]: "root (fst (updateNode t i h v b)) = root t"
  by (simp add: updateNode_def Let_def)

lemma updateNode_db [simp]: "db (fst (updateNode t i h v b)) = db t"
  by (simp add: updateNode_def Let_def)

lemma staged_Nil [simp]: "staged t []"
  by (simp add: staged_def)

lemma staged_dom: "staged t b \<Longrightarrow> k \<in> fst ` set b \<Longrightarrow> cache t k \<noteq> None"
proof -
  assume st: "staged t b" and k: "k \<in> fst ` set b"
  from k have "k \<in> fst ` set (rev b)" by simp
  then have "map_of (rev b) k \<noteq> None" by (simp only: map_of_eq_None_iff not_not)
  moreover from st k have "map_of (rev b) k = cache t k" unfolding staged_def by (rule bspec)
  ultimately show ?thesis by simp
qed

lemma getNode_cache_other: "cache t k \<noteq> None \<Longrightarrow> cache (snd (getNode H t i h)) k = cache t k"
  by (auto simp: getNode_def Let_def split: option.splits)

lemma staged_getNode: "staged t b \<Longrightarrow> staged (snd (getNode H t i h)) b"
proof -
  assume st: "staged t b"
  have "map_of (rev b) k = cache (snd (getNode H t i h)) k" if "k \<in> fst ` set b" for k
  proof -
    from st that have "map_of (rev b) k = cache t k" unfolding staged_def by (rule bspec)
    moreover from st that have "cache t k \<noteq> None" by (rule staged_dom)
    then have "cache (snd (getNode H t i h)) k = cache t k" by (rule getNode_cache_other)
    ultimately show ?thesis by simp
  qed
  then show ?thesis unfolding staged_def by blast
qed

lemma staged_updateNode:
  "staged t b \<Longrightarrow> staged (fst (updateNode t i h v b)) (snd (updateNode t i h v b))"
  by (auto simp: staged_def updateNode_def batch_put_def Let_def)

lemma getHashPath_loop_step:
  "height < depth t \<Longrightarrow>
   getHashPath_loop H height c p t =
     getHashPath_loop H (Suc height) (c div 2)
       (p @ [layerPair (readNode H t) c height])
       (snd (getNode H (snd (getNode H t (pairIndex c) height)) c height))"
  by (subst getHashPath_loop.simps)
     (simp add: Let_def layerPair_def readNode_def [symmetric])

lemma getHashPath_loop_done: "\<not> height < depth t \<Longrightarrow> getHashPath_loop H height c p t = (p, t)"
  by (subst getHashPath_loop.simps) simp

lemma pathPairs_step:
  "h < d \<Longrightarrow> pathPairs rd d h c = layerPair rd c h # pathPairs rd d (Suc h) (c div 2)"
  by (simp add: pathPairs_def upt_conv_Cons div2_pow_shift)

lemma getHashPath_loop_fst:
  "fst (getHashPath_loop H height c p t) = p @ pathPairs (readNode H t) (depth t) height c"
proof (induction "depth t - height" arbitrary: height c p t)
  case 0
  then show ?case by (simp add: getHashPath_loop_done pathPairs_def)
next
  case (Suc n)
  let ?t' = "snd (getNode H (snd (getNode H t (pairIndex c) height)) c height)"
  from Suc.hyps(2) have lt: "height < depth t" by simp
  have rd: "readNode H ?t' = readNode H t" by (intro ext) simp
  from Suc.hyps(2) have "n = depth ?t' - Suc height" by simp
  from Suc.hyps(1) [OF this]
  have "fst (getHashPath_loop H (Suc height) (c div 2) (p @ [layerPair (readNode H t) c height]) ?t')
        = (p @ [layerPair (readNode H t) c height]) @ pathPairs (readNode H ?t') (depth ?t') (Suc height) (c div 2)" .
  with lt rd show ?case
    by (simp add: getHashPath_loop_step pathPairs_step)
qed

lemma getHashPath_loop_read:
  "readNode H (snd (getHashPath_loop H height c p t)) i h = readNode H t i h"
proof (induction "depth t - height" arbitrary: height c p t)
  case 0
  then show ?case by (simp add: getHashPath_loop_done)
next
  case (Suc n)
  let ?t' = "snd (getNode H (snd (getNode H t (pairIndex c) height)) c height)"
  from Suc.hyps(2) have lt: "height < depth t" by simp
  from Suc.hyps(2) have "n = depth ?t' - Suc height" by simp
  from Suc.hyps(1) [OF this, of "c div 2" "p @ [layerPair (readNode H t) c height]"] lt
  show ?case by (simp add: getHashPath_loop_step)
qed

lemma updateElement_loop_step:
  "height < depth t \<Longrightarrow>
   updateElement_loop H height c v t b =
     (let v' = (if isRight c then compress H (readNode H t (pairIndex c) height) v
                else compress H v (readNode H t (pairIndex c) height));
          t_b = updateNode (snd (getNode H t (pairIndex c) height)) (c div 2) (Suc height) v' b
      in updateElement_loop H (Suc height) (c div 2) v' (fst t_b) (snd t_b))"
  by (subst updateElement_loop.simps) (simp add: Let_def readNode_def [symmetric])

lemma updateElement_loop_done:
  "\<not> height < depth t \<Longrightarrow> updateElement_loop H height c v t b = (v, t, b)"
  by (subst updateElement_loop.simps) simp

lemma updateElement_loop_fst:
  "fst (updateElement_loop H height c v t b) = climb H v c (siblings (readNode H t) (depth t) height c)"
proof (induction "depth t - height" arbitrary: height c v t b)
  case 0
  then show ?case by (simp add: updateElement_loop_done siblings_done)
next
  case (Suc n)
  define v' where "v' = (if isRight c then compress H (readNode H t (pairIndex c) height) v
                else compress H v (readNode H t (pairIndex c) height))"
  define t' where "t' = fst (updateNode (snd (getNode H t (pairIndex c) height)) (c div 2) (Suc height) v' b)"
  define b' where "b' = snd (updateNode (snd (getNode H t (pairIndex c) height)) (c div 2) (Suc height) v' b)"
  from Suc.hyps(2) have lt: "height < depth t" by simp
  have d: "depth t' = depth t" by (simp add: t'_def)
  with Suc.hyps(2) have "n = depth t' - Suc height" by simp
  from Suc.hyps(1) [OF this]
  have IH: "fst (updateElement_loop H (Suc height) (c div 2) v' t' b')
            = climb H v' (c div 2) (siblings (readNode H t') (depth t') (Suc height) (c div 2))" .
  have "siblings (readNode H t') (depth t) (Suc height) (c div 2)
        = siblings (readNode H t) (depth t) (Suc height) (c div 2)"
  proof (rule siblings_cong)
    fix k assume "Suc height \<le> k" "k < depth t"
    then show "readNode H t' (pairIndex (c div 2 div 2 ^ (k - Suc height))) k
               = readNode H t (pairIndex (c div 2 div 2 ^ (k - Suc height))) k"
      by (cases "k = Suc height") (simp_all add: t'_def)
  qed
  with IH d lt show ?case
    by (simp add: updateElement_loop_step Let_def siblings_step v'_def [symmetric]
        t'_def [symmetric] b'_def [symmetric])
qed

lemma updateElement_loop_read_other:
  "h \<le> height \<or> i \<noteq> c div 2 ^ (h - height) \<Longrightarrow>
   readNode H (fst (snd (updateElement_loop H height c v t b))) i h = readNode H t i h"
proof (induction "depth t - height" arbitrary: height c v t b)
  case 0
  then show ?case by (simp add: updateElement_loop_done)
next
  case (Suc n)
  define v' where "v' = (if isRight c then compress H (readNode H t (pairIndex c) height) v
                else compress H v (readNode H t (pairIndex c) height))"
  define t' where "t' = fst (updateNode (snd (getNode H t (pairIndex c) height)) (c div 2) (Suc height) v' b)"
  define b' where "b' = snd (updateNode (snd (getNode H t (pairIndex c) height)) (c div 2) (Suc height) v' b)"
  from Suc.hyps(2) have lt: "height < depth t" by simp
  have d: "depth t' = depth t" by (simp add: t'_def)
  with Suc.hyps(2) have n: "n = depth t' - Suc height" by simp
  have cond: "h \<le> Suc height \<or> i \<noteq> c div 2 div 2 ^ (h - Suc height)"
    using Suc.prems by (cases "h \<le> Suc height") (auto simp: div2_pow_shift)
  have "readNode H (fst (snd (updateElement_loop H (Suc height) (c div 2) v' t' b'))) i h
        = readNode H t' i h"
    by (rule Suc.hyps(1) [OF n cond])
  moreover have "readNode H t' i h = readNode H t i h"
    using Suc.prems by (auto simp: t'_def)
  ultimately show ?case using lt
    by (simp add: updateElement_loop_step Let_def v'_def [symmetric]
        t'_def [symmetric] b'_def [symmetric])
qed

lemma updateElement_loop_frame:
  "name (fst (snd (updateElement_loop H height c v t b))) = name t \<and>
   depth (fst (snd (updateElement_loop H height c v t b))) = depth t \<and>
   root (fst (snd (updateElement_loop H height c v t b))) = root t \<and>
   db (fst (snd (updateElement_loop H height c v t b))) = db t \<and>
   (staged t b \<longrightarrow> staged (fst (snd (updateElement_loop H height c v t b)))
                     (snd (snd (updateElement_loop H height c v t b)))) \<and>
   set b \<subseteq> set (snd (snd (updateElement_loop H height c v t b)))"
proof (induction "depth t - height" arbitrary: height c v t b)
  case 0
  then show ?case by (simp add: updateElement_loop_done)
next
  case (Suc n)
  define v' where "v' = (if isRight c then compress H (readNode H t (pairIndex c) height) v
                else compress H v (readNode H t (pairIndex c) height))"
  define t' where "t' = fst (updateNode (snd (getNode H t (pairIndex c) height)) (c div 2) (Suc height) v' b)"
  define b' where "b' = snd (updateNode (snd (getNode H t (pairIndex c) height)) (c div 2) (Suc height) v' b)"
  from Suc.hyps(2) have lt: "height < depth t" by simp
  have d: "depth t' = depth t" "name t' = name t" "root t' = root t" "db t' = db t"
    by (simp_all add: t'_def)
  have st: "staged t b \<Longrightarrow> staged t' b'"
    unfolding t'_def b'_def by (intro staged_updateNode staged_getNode)
  have sb: "set b \<subseteq> set b'" by (auto simp: b'_def updateNode_def batch_put_def Let_def)
  from d Suc.hyps(2) have n: "n = depth t' - Suc height" by simp
  note IH = Suc.hyps(1) [OF n, of "c div 2" v' b']
  from IH sb have "set b \<subseteq> set (snd (snd (updateElement_loop H (Suc height) (c div 2) v' t' b')))"
    by blast
  with IH d st lt show ?case
    by (simp add: updateElement_loop_step Let_def v'_def [symmetric]
        t'_def [symmetric] b'_def [symmetric])
qed

subsection \<open>What updateElement returns and leaves behind\<close>

lemma batch_apply_other: "k \<notin> fst ` set b \<Longrightarrow> batch_apply b s k = s k"
  unfolding batch_apply_def
  by (induction b arbitrary: s) (auto simp: case_prod_beta)

lemma batch_apply_append [simp]: "batch_apply (b @ c) s = batch_apply c (batch_apply b s)"
  by (simp add: batch_apply_def)

lemma readNode_commit:
  assumes "staged t b"
  shows "readNode H (t\<lparr>db := batch_apply (batch_put b (name t) data) (db t)\<rparr>) i h = readNode H t i h"
proof (rule readNode_db_update)
  assume "cache t (nodeKey (name t) h i) = None"
  with staged_dom [OF assms, of "nodeKey (name t) h i"]
  have "nodeKey (name t) h i \<notin> fst ` set (batch_put b (name t) data)"
    by (auto simp: batch_put_def)
  then show "batch_apply (batch_put b (name t) data) (db t) (nodeKey (name t) h i)
             = db t (nodeKey (name t) h i)"
    by (rule batch_apply_other)
qed

lemma length_copy [simp]: "length (copy source target) = length target"
  by (auto simp: copy_def min_def)

lemma length_alloc [simp]: "length (alloc n) = n"
  by (simp add: alloc_def)

lemma metaData_cases:
  "metaData t = (if 2 ^ 32 \<le> depth t then Inl RangeError
                 else Inr (take 32 (copy (root t) (alloc 40)) @ u32le (depth t)
                           @ drop 36 (copy (root t) (alloc 40))))"
  by (simp add: metaData_def writeUInt32LE_def)

lemma loopResult_root: "fst (loopResult H t i v) = newRoot H t i v"
proof -
  have "siblings (readNode H (fst (leafState H t i v))) (depth t) 0 i
        = siblings (readNode H t) (depth t) 0 i"
    by (rule siblings_cong) (auto simp: leafState_def)
  then show ?thesis
    by (simp add: loopResult_def newRoot_def updateElement_loop_fst leafState_def)
qed

lemma loopResult_frame:
  "name (fst (snd (loopResult H t i v))) = name t"
  "depth (fst (snd (loopResult H t i v))) = depth t"
  "db (fst (snd (loopResult H t i v))) = db t"
  "staged (fst (snd (loopResult H t i v))) (snd (snd (loopResult H t i v)))"
  "nodeKey (name t) 0 i \<in> fst ` set (snd (snd (loopResult H t i v)))"
proof -
  have "staged (fst (leafState H t i v)) (snd (leafState H t i v))"
    unfolding leafState_def by (rule staged_updateNode) simp
  with updateElement_loop_frame [of H 0 i "hash H v" "fst (leafState H t i v)" "snd (leafState H t i v)"]
  show "name (fst (snd (loopResult H t i v))) = name t"
    "depth (fst (snd (loopResult H t i v))) = depth t"
    "db (fst (snd (loopResult H t i v))) = db t"
    "staged (fst (snd (loopResult H t i v))) (snd (snd (loopResult H t i v)))"
    by (simp_all add: loopResult_def leafState_def)
  have "(nodeKey (name t) 0 i, hash H v) \<in> set (snd (leafState H t i v))"
    by (simp add: leafState_def updateNode_def batch_put_def Let_def)
  with updateElement_loop_frame [of H 0 i "hash H v" "fst (leafState H t i v)" "snd (leafState H t i v)"]
  have "(nodeKey (name t) 0 i, hash H v) \<in> set (snd (snd (loopResult H t i v)))"
    by (auto simp: loopResult_def)
  then show "nodeKey (name t) 0 i \<in> fst ` set (snd (snd (loopResult H t i v)))"
    by (rule image_eqI [rotated]) simp
qed

lemma loopResult_read_other:
  "x \<noteq> i div 2 ^ k \<Longrightarrow> readNode H (fst (snd (loopResult H t i v))) x k = readNode H t x k"
proof -
  assume ne: "x \<noteq> i div 2 ^ k"
  then have "readNode H (fst (snd (loopResult H t i v))) x k = readNode H (fst (leafState H t i v)) x k"
    unfolding loopResult_def by (intro updateElement_loop_read_other) simp
  also from ne have "\<dots> = readNode H t x k"
    by (cases k) (auto simp: leafState_def)
  finally show ?thesis .
qed

text \<open>What \<^verbatim>\<open>updateElement\<close> returns and leaves behind, branch by branch.\<close>

lemma updateElement_unfold:
  "updateElement H db_ok t i v =
     (let r = loopResult H t i v; t1 = (fst (snd r))\<lparr>root := fst r\<rparr> in
      if 2 ^ 32 \<le> depth t then (Inl RangeError, t1)
      else if db_ok then
        (Inr (fst r),
         t1\<lparr>db := batch_apply (batch_put (snd (snd r)) (name t)
                    (take 32 (copy (fst r) (alloc 40)) @ u32le (depth t)
                     @ drop 36 (copy (fst r) (alloc 40)))) (db t)\<rparr>)
      else (Inl DbError, t1))"
  by (simp add: updateElement_def Let_def writeMetaData_def metaData_cases batch_write_def
      loopResult_def [symmetric] leafState_def [symmetric] loopResult_frame
      del: One_nat_def)

lemma updateElement_fst:
  "fst (updateElement H db_ok t i v) =
     (if 2 ^ 32 \<le> depth t then Inl RangeError
      else if db_ok then Inr (newRoot H t i v) else Inl DbError)"
  by (simp add: updateElement_unfold Let_def loopResult_root)

lemma updateElement_root: "root (snd (updateElement H db_ok t i v)) = newRoot H t i v"
  by (simp add: updateElement_unfold Let_def loopResult_root)

lemma updateElement_depth [simp]: "depth (snd (updateElement H db_ok t i v)) = depth t"
  by (simp add: updateElement_unfold Let_def loopResult_frame)

lemma updateElement_name [simp]: "name (snd (updateElement H db_ok t i v)) = name t"
  by (simp add: updateElement_unfold Let_def loopResult_frame)

lemma updateElement_read:
  "readNode H (snd (updateElement H db_ok t i v)) x k = readNode H (fst (snd (loopResult H t i v))) x k"
proof -
  define r where "r = loopResult H t i v"
  define t1 where "t1 = (fst (snd r))\<lparr>root := fst r\<rparr>"
  have st: "staged t1 (snd (snd r))"
    using loopResult_frame(4) [of H t i v] by (simp add: t1_def r_def staged_def)
  have nm: "name t1 = name t" "db t1 = db t"
    by (simp_all add: t1_def r_def loopResult_frame)
  have "readNode H (t1\<lparr>db := batch_apply (batch_put (snd (snd r)) (name t) data) (db t)\<rparr>) x k
        = readNode H t1 x k" for data
    using readNode_commit [OF st, of H data x k] nm by simp
  then show ?thesis
    by (simp add: updateElement_unfold Let_def r_def [symmetric] t1_def [symmetric])
       (simp add: t1_def)
qed

lemma updateElement_read_other:
  "x \<noteq> i div 2 ^ k \<Longrightarrow> readNode H (snd (updateElement H db_ok t i v)) x k = readNode H t x k"
  by (simp add: updateElement_read loopResult_read_other)

lemma updateElement_siblings:
  "siblings (readNode H (snd (updateElement H db_ok t i v))) d 0 i = siblings (readNode H t) d 0 i"
  by (rule siblings_cong) (simp add: updateElement_read_other)

subsection \<open>Empty hashes, left and right\<close>

lemma getEmptyNodeHash_emptyHash: "getEmptyNodeHash H h = emptyHash H h"
proof (induction h)
  case 0
  show ?case by (subst getEmptyNodeHash.simps) (simp add: alloc_def LEAF_BYTES_def)
next
  case (Suc h)
  then show ?case by (subst getEmptyNodeHash.simps) (simp add: Let_def)
qed

lemma isRight_nonneg: "0 \<le> c \<Longrightarrow> isRight c = odd c"
  by (auto simp: isRight_def smod_mod_positive odd_iff_mod_2_eq_one)

lemma isRight_neg: "c < 0 \<Longrightarrow> \<not> isRight c"
proof -
  assume "c < 0"
  then have "c smod 2 \<le> 0"
    by (simp add: signed_modulo_int_def mult_le_0_iff)
  then show ?thesis by (simp add: isRight_def)
qed

lemma isRight_iff: "isRight c \<longleftrightarrow> 0 < c \<and> odd c"
proof (cases "c < 0")
  case True
  then show ?thesis by (simp add: isRight_neg)
next
  case False
  moreover have "odd c \<Longrightarrow> c \<noteq> 0" by auto
  ultimately show ?thesis by (auto simp: isRight_nonneg)
qed

lemma pairIndex_nonneg: "0 \<le> c \<Longrightarrow> pairIndex c = c XOR 1"
  by (auto simp: pairIndex_def isRight_nonneg xor_one_eq)

subsection \<open>A read miss (C7)\<close>

text \<open>Claim C7.  When the key of a node is in neither the cache nor the store, \<^verbatim>\<open>getNode\<close>
  returns the empty hash of the height and puts it into the cache; the digest returned and
  the cache left behind are those of a store that holds the empty hash under the key.\<close>

theorem getNode_miss_is_empty:
  assumes "cache t (nodeKey (name t) h i) = None" and "db t (nodeKey (name t) h i) = None"
  shows "getNode H t i h =
           (emptyHash H h, t\<lparr>cache := (cache t)(nodeKey (name t) h i \<mapsto> emptyHash H h)\<rparr>)
         \<and> fst (getNode H (t\<lparr>db := (db t)(nodeKey (name t) h i \<mapsto> emptyHash H h)\<rparr>) i h)
             = fst (getNode H t i h)
         \<and> cache (snd (getNode H (t\<lparr>db := (db t)(nodeKey (name t) h i \<mapsto> emptyHash H h)\<rparr>) i h))
             = cache (snd (getNode H t i h))"
  using assms by (simp add: getNode_def Let_def getEmptyNodeHash_emptyHash)

text \<open>Claim C7 at node \<open>(0, 5)\<close> of an empty tree.\<close>

theorem getNode_miss_is_empty_witness:
  "fst (getNode toyHasher tree1 5 0) = [1]
   \<and> cache (snd (getNode toyHasher tree1 5 0)) (nodeKey ''t'' 0 5) = Some [1]"
  using getNode_miss_is_empty [of tree1 0 5 toyHasher]
  by (simp add: tree1_def toyHasher_def sum_list_replicate)

subsection \<open>The pairs of a hash path (C5)\<close>

lemma getHashPath_pairs: "fst (getHashPath H t i) = pathPairs (readNode H t) (depth t) 0 i"
  by (simp add: getHashPath_def getHashPath_loop_fst)

lemma getHashPath_pairs_code:
  "fst (getHashPath H t i) =
     map (\<lambda>h. let c = i div 2 ^ h
              in if 0 < c \<and> odd c then (readNode H t (c - 1) h, readNode H t c h)
                 else (readNode H t c h, readNode H t (c + 1) h))
       [0..<depth t]"
  by (simp add: getHashPath_pairs pathPairs_def layerPair_def Let_def isRight_iff pairIndex_def)

lemma getHashPath_nonneg:
  assumes "0 \<le> i"
  shows "fst (getHashPath H t i) = hashPathSpec H t i"
proof -
  from assms have "0 \<le> i div 2 ^ h" for h
    by (simp add: pos_imp_zdiv_nonneg_iff)
  then show ?thesis
    by (simp add: getHashPath_pairs pathPairs_def layerPair_def hashPathSpec_def Let_def
        isRight_nonneg pairIndex_nonneg)
qed

text \<open>Claim C5, as amended.  For every index \<open>i\<close> of a leaf (\<open>0 \<le> i < 2 ^ depth\<close>),
  \<^verbatim>\<open>getHashPath(i)\<close> returns exactly \<open>depth\<close> pairs in leaf-to-root order, where at each
  height the sibling index is \<open>i XOR 1\<close>, the pair is ordered (left, right) with the own
  node of the path on the right iff \<open>i\<close> is odd at that height, and \<open>i\<close> becomes
  \<open>floor(i/2)\<close> for the next height.\<close>

theorem getHashPath_pairs_spec:
  assumes "0 \<le> i" and "i < 2 ^ depth t" and "depth t \<le> MAX_DEPTH"
  shows "fst (getHashPath H t i) = hashPathSpec H t i
         \<and> length (fst (getHashPath H t i)) = depth t"
proof -
  from assms(1) have "fst (getHashPath H t i) = hashPathSpec H t i"
    by (rule getHashPath_nonneg)
  moreover have "length (hashPathSpec H t i) = depth t"
    by (simp add: hashPathSpec_def)
  ultimately show ?thesis by simp
qed

lemma depth_tree2 [simp]: "depth tree2 = 1"
  by (simp add: tree2_def)

lemma readNode_tree2 [simp]:
  "readNode H tree2 0 0 = [6]" "readNode toyHasher tree2 (-1) 0 = [1]"
  "readNode toyHasher tree2 (-2) 0 = [1]"
  by (simp_all add: readNode_def getNode_def tree2_def Let_def toyHasher_def
      getEmptyNodeHash_emptyHash sum_list_replicate)

lemma readNode_tree2_1 [simp]: "readNode H tree2 1 0 = [1]"
  by (simp add: readNode_def getNode_def tree2_def Let_def)

text \<open>Claim C5, as amended, at index 1 of a tree of depth 1: the sibling is the leaf at index 0,
  on the left.\<close>

theorem getHashPath_pairs_spec_witness:
  "(0::int) \<le> 1 \<and> (1::int) < 2 ^ depth tree2 \<and> depth tree2 \<le> MAX_DEPTH
   \<and> fst (getHashPath toyHasher tree2 1) = hashPathSpec toyHasher tree2 1
   \<and> hashPathSpec toyHasher tree2 1 = [([6], [1])]"
proof -
  have h: "(0::int) \<le> 1" "(1::int) < 2 ^ depth tree2" "depth tree2 \<le> MAX_DEPTH"
    by (simp_all add: MAX_DEPTH_def)
  have "hashPathSpec toyHasher tree2 1 = [([6], [1])]"
    by (simp add: hashPathSpec_def)
  with getHashPath_pairs_spec [OF h, of toyHasher] h show ?thesis by simp
qed

text \<open>Claim C5 as stated, for every index, fails at index \<open>-1\<close>, which is no leaf of the tree:
  the code pairs node \<open>-1\<close> (left) with node \<open>0\<close>, where the claim has node \<open>-2\<close>
  with node \<open>-1\<close> (right).\<close>

theorem getHashPath_negative_counterexample:
  "fst (getHashPath toyHasher tree2 (-1)) = [([1], [6])]
   \<and> hashPathSpec toyHasher tree2 (-1) = [([1], [1])]"
  by (simp add: getHashPath_pairs pathPairs_def layerPair_def hashPathSpec_def isRight_iff
      pairIndex_def)

subsection \<open>Replaying the path of an updated element (C1)\<close>

lemma replay_pathPairs:
  "replay H isRight cur c (pathPairs rd d h c) = climb H cur c (siblings rd d h c)"
proof (induction "d - h" arbitrary: h c cur)
  case 0
  then show ?case by (simp add: pathPairs_def siblings_def)
next
  case (Suc n)
  then have lt: "h < d" and n: "n = d - Suc h" by simp_all
  from Suc.hyps(1) [OF n] lt show ?case
    by (simp add: pathPairs_step siblings_step layerPair_def)
qed

lemma replay_odd_nonneg:
  "0 \<le> c \<Longrightarrow> replay H odd cur c ps = replay H isRight cur c ps"
proof (induction ps arbitrary: cur c)
  case Nil
  show ?case by simp
next
  case (Cons p ps)
  from Cons.prems have "0 \<le> c div 2" by simp
  from Cons.IH [OF this] Cons.prems show ?case
    by (simp add: isRight_nonneg)
qed

lemma updateElement_path:
  "fst (getHashPath H (snd (updateElement H db_ok t i v)) i)
   = pathPairs (readNode H (snd (updateElement H db_ok t i v))) (depth t) 0 i"
  by (simp add: getHashPath_pairs)

lemma replay_after_update:
  "replay H isRight (hash H v) i (fst (getHashPath H (snd (updateElement H db_ok t i v)) i))
   = newRoot H t i v"
  by (simp add: updateElement_path replay_pathPairs updateElement_siblings newRoot_def)

text \<open>Claim C1, as amended.  For every index of a leaf (\<open>0 \<le> index < 2 ^ depth\<close>) and every
  64-byte value, after \<^verbatim>\<open>updateElement(index, value)\<close> has returned a root, replaying the
  hash path returned by \<^verbatim>\<open>getHashPath(index)\<close> - from \<open>hash(value)\<close>, compressing with each
  pair in leaf-to-root order, the own node of the path on the right iff the index at that
  height is odd - gives exactly the root returned.  (The proof does not use the length of
  the value.)\<close>

theorem updateElement_path_replays_root:
  assumes "0 \<le> i" and "i < 2 ^ depth t" and "depth t \<le> MAX_DEPTH"
  shows "fst (updateElement H True t i v) =
           Inr (replay H odd (hash H v) i
                  (fst (getHashPath H (snd (updateElement H True t i v)) i)))"
proof -
  from assms(3) have "\<not> 2 ^ 32 \<le> depth t" by (simp add: MAX_DEPTH_def)
  then have "fst (updateElement H True t i v) = Inr (newRoot H t i v)"
    by (simp add: updateElement_fst)
  with assms(1) show ?thesis
    by (simp add: replay_after_update replay_odd_nonneg)
qed

lemma depth_tree1 [simp]: "depth tree1 = 1"
  by (simp add: tree1_def)

lemma readNode_tree1 [simp]: "readNode toyHasher tree1 i 0 = [1]"
  by (simp add: readNode_def getNode_def tree1_def Let_def toyHasher_def
      getEmptyNodeHash_emptyHash sum_list_replicate)

lemma newRoot_tree1_0: "newRoot toyHasher tree1 0 [5] = [6, 1]"
  by (simp add: newRoot_def siblings_def isRight_iff) (simp add: toyHasher_def)

lemma hash_ones: "hash toyHasher (replicate 64 1) = [65]"
  by (simp add: toyHasher_def sum_list_replicate)

lemma newRoot_tree1_0_ones: "newRoot toyHasher tree1 0 (replicate 64 1) = [65, 1]"
  by (simp add: newRoot_def siblings_def isRight_iff hash_ones) (simp add: toyHasher_def)

lemma newRoot_tree1_m1: "newRoot toyHasher tree1 (-1) (replicate 64 1) = [65, 1]"
  by (simp add: newRoot_def siblings_def isRight_iff hash_ones) (simp add: toyHasher_def)

text \<open>Claim C1, as amended, at index 0 of an empty tree of depth 1, with a value of 64 bytes.\<close>

theorem updateElement_path_replays_root_witness:
  "(0::int) \<le> 0 \<and> (0::int) < 2 ^ depth tree1 \<and> depth tree1 \<le> MAX_DEPTH
   \<and> fst (updateElement toyHasher True tree1 0 (replicate 64 1)) = Inr [65, 1]
   \<and> replay toyHasher odd (hash toyHasher (replicate 64 1)) 0
        (fst (getHashPath toyHasher (snd (updateElement toyHasher True tree1 0 (replicate 64 1))) 0))
       = [65, 1]"
proof -
  have h: "(0::int) \<le> 0" "(0::int) < 2 ^ depth tree1" "depth tree1 \<le> MAX_DEPTH"
    by (simp_all add: MAX_DEPTH_def)
  have r: "fst (updateElement toyHasher True tree1 0 (replicate 64 1)) = Inr [65, 1]"
    by (simp add: updateElement_fst newRoot_tree1_0_ones)
  from updateElement_path_replays_root [OF h, of toyHasher "replicate 64 1"]
  have "fst (updateElement toyHasher True tree1 0 (replicate 64 1)) =
          Inr (replay toyHasher odd (hash toyHasher (replicate 64 1)) 0
                 (fst (getHashPath toyHasher
                    (snd (updateElement toyHasher True tree1 0 (replicate 64 1))) 0)))" .
  with r have "replay toyHasher odd (hash toyHasher (replicate 64 1)) 0
                 (fst (getHashPath toyHasher
                    (snd (updateElement toyHasher True tree1 0 (replicate 64 1))) 0))
               = [65, 1]"
    by simp
  with h r show ?thesis by simp
qed

text \<open>Claim C1 as stated, for every index, fails at index \<open>-1\<close>, which is no leaf of the tree,
  with a value of 64 bytes: the replay gives another digest than the root returned.\<close>

theorem updateElement_negative_index_counterexample:
  "fst (updateElement toyHasher True tree1 (-1) (replicate 64 1)) = Inr [65, 1]
   \<and> fst (getHashPath toyHasher (snd (updateElement toyHasher True tree1 (-1) (replicate 64 1))) (-1))
       = [([65], [1])]
   \<and> replay toyHasher odd (hash toyHasher (replicate 64 1)) (-1)
        (fst (getHashPath toyHasher (snd (updateElement toyHasher True tree1 (-1) (replicate 64 1))) (-1)))
       = [65, 65]"
proof -
  let ?t = "snd (updateElement toyHasher True tree1 (-1) (replicate 64 1))"
  have leaf: "readNode toyHasher ?t (-1) 0 = [65]"
    by (simp add: updateElement_read loopResult_def leafState_def updateElement_loop_read_other
        hash_ones)
  have sib: "readNode toyHasher ?t 0 0 = [1]"
    by (simp add: updateElement_read_other)
  have path: "fst (getHashPath toyHasher ?t (-1)) = [([65], [1])]"
    using leaf sib by (simp add: getHashPath_pairs pathPairs_def layerPair_def isRight_iff pairIndex_def)
  have "fst (updateElement toyHasher True tree1 (-1) (replicate 64 1)) = Inr [65, 1]"
    by (simp add: updateElement_fst newRoot_tree1_m1)
  moreover have "replay toyHasher odd [65] (-1) [([65], [1])] = [65, 65]"
    by (simp add: toyHasher_def)
  ultimately show ?thesis using path by (simp add: hash_ones)
qed

subsection \<open>Idempotence (C9)\<close>

text \<open>Claim C9.  The same \<open>(index, value)\<close> applied twice in succession returns the same
  root both times.\<close>

theorem updateElement_idempotent:
  assumes "depth t \<le> MAX_DEPTH"
  shows "\<exists>r. fst (updateElement H True t i v) = Inr r
             \<and> fst (updateElement H True (snd (updateElement H True t i v)) i v) = Inr r
             \<and> getRoot (snd (updateElement H True (snd (updateElement H True t i v)) i v)) = r"
proof -
  from assms have d: "\<not> 2 ^ 32 \<le> depth t" by (simp add: MAX_DEPTH_def)
  have "newRoot H (snd (updateElement H True t i v)) i v = newRoot H t i v"
    by (simp add: newRoot_def updateElement_siblings)
  with d show ?thesis by (simp add: updateElement_fst updateElement_root getRoot_def)
qed

text \<open>Claim C9 at index 0 of an empty tree of depth 1.\<close>

theorem updateElement_idempotent_witness:
  "depth tree1 \<le> MAX_DEPTH
   \<and> fst (updateElement toyHasher True tree1 0 [5]) = Inr [6, 1]
   \<and> fst (updateElement toyHasher True (snd (updateElement toyHasher True tree1 0 [5])) 0 [5])
       = Inr [6, 1]"
proof -
  have d: "depth tree1 \<le> MAX_DEPTH" by (simp add: MAX_DEPTH_def)
  have r: "fst (updateElement toyHasher True tree1 0 [5]) = Inr [6, 1]"
    by (simp add: updateElement_fst newRoot_tree1_0)
  from updateElement_idempotent [OF d, of toyHasher 0 "[5]"] d r show ?thesis
    by auto
qed

subsection \<open>Metadata (C3, C6)\<close>

lemma u32_digits:
  fixes n :: nat
  assumes "n < 2 ^ 32"
  shows "n mod 256 + 256 * (n div 256 mod 256) + 65536 * (n div 65536 mod 256)
         + 16777216 * (n div 16777216) = n"
proof -
  define a where "a = n div 256"
  define b where "b = a div 256"
  define c where "c = b div 256"
  have b: "n div 65536 = b"
    unfolding b_def a_def by (simp add: div_mult2_eq [symmetric])
  have c: "n div 16777216 = c"
    unfolding c_def b_def a_def by (simp add: div_mult2_eq [symmetric])
  have "n = n mod 256 + 256 * a" by (simp add: a_def)
  moreover have "a = a mod 256 + 256 * b" by (simp add: b_def)
  moreover have "b = b mod 256 + 256 * c" by (simp add: c_def)
  ultimately show ?thesis
    unfolding b c a_def [symmetric] by linarith
qed

lemma unat_byte: "unat (word_of_nat x :: 8 word) = x mod 256"
  by (simp add: unat_of_nat)

lemma readUInt32LE_u32le:
  assumes "n < 2 ^ 32" and "length pre = off"
  shows "readUInt32LE (pre @ u32le n @ post) off = Inr n"
proof -
  from assms(1) have "n div 16777216 < 256" by simp
  then have "n div 16777216 mod 256 = n div 16777216" by simp
  with u32_digits [OF assms(1)] assms(2) show ?thesis
    by (simp add: readUInt32LE_def u32le_def nth_append unat_byte)
qed

lemma metaData_ok:
  assumes "length (root t) = 32" and "depth t < 2 ^ 32"
  shows "metaData t = Inr (metaBytes (root t) (depth t))"
  using assms by (simp add: metaData_cases copy_def alloc_def metaBytes_def)

lemma restore_metaBytes:
  assumes "length r = 32" and "1 \<le> d" and "d \<le> MAX_DEPTH" and "s nm = Some (metaBytes r d)"
  shows "new H db_ok s nm d_opt = Inr \<lparr>name = nm, depth = d, root = r, cache = Map.empty, db = s\<rparr>"
proof -
  from assms(3) have "d < 2 ^ 32" by (simp add: MAX_DEPTH_def)
  then have "readUInt32LE (metaBytes r d) 32 = Inr d"
    unfolding metaBytes_def using assms(1) by (rule readUInt32LE_u32le)
  with assms show ?thesis
    by (simp add: new_def Let_def constructor_def metaBytes_def)
qed

text \<open>Claim C3.  For every depth from 1 to 32, \<^verbatim>\<open>new\<close> on a store with no metadata under the
  name returns a tree of that depth whose root is the empty hash of the depth.\<close>

theorem fresh_tree_root:
  assumes "1 \<le> d" and "d \<le> 32" and "s nm = None"
  shows "\<exists>t. new H True s nm (Some d) = Inr t \<and> depth t = d \<and> getRoot t = emptyHash H d"
  using assms
  by (simp add: new_def constructor_def MAX_DEPTH_def writeMetaData_def metaData_cases getRoot_def
      getEmptyNodeHash_emptyHash)

text \<open>Claim C3 at depth 2.\<close>

theorem fresh_tree_root_witness:
  "\<exists>t. new toyHasher True Map.empty ''t'' (Some 2) = Inr t \<and> depth t = 2
       \<and> getRoot t = [1, 1, 1, 1]"
  using fresh_tree_root [of 2 Map.empty "''t''" toyHasher]
  by (simp add: toyHasher_def numeral_2_eq_2 sum_list_replicate)

text \<open>Claim C6.  \<^verbatim>\<open>writeMetaData\<close> stores 40 bytes under the name of the tree, directly or
  through the batch: the root at offsets 0 to 32, the depth as four bytes, least
  significant first, at offsets 32 to 36.  \<^verbatim>\<open>new\<close> on a store that holds these bytes
  under the name returns a tree with exactly that root and depth.\<close>

theorem restore_persisted_metadata:
  assumes "length (root t) = 32" and "1 \<le> depth t" and "depth t \<le> MAX_DEPTH"
  shows "\<exists>data.
           writeMetaData True t None = Inr (t\<lparr>db := (db t)(name t \<mapsto> data)\<rparr>, [])
           \<and> (\<forall>b s. writeMetaData db_ok t (Some b) = Inr (t, batch_put b (name t) data)
                    \<and> batch_apply (batch_put b (name t) data) s (name t) = Some data)
           \<and> length data = 40
           \<and> take 32 data = root t
           \<and> take 4 (drop 32 data) = u32le (depth t)
           \<and> (\<forall>s. s (name t) = Some data \<longrightarrow>
                  new H db_ok s (name t) d_opt =
                    Inr \<lparr>name = name t, depth = depth t, root = root t,
                         cache = Map.empty, db = s\<rparr>)"
proof (intro exI conjI allI impI)
  from assms(3) have d: "depth t < 2 ^ 32" by (simp add: MAX_DEPTH_def)
  show "writeMetaData True t None
        = Inr (t\<lparr>db := (db t)(name t \<mapsto> metaBytes (root t) (depth t))\<rparr>, [])"
    by (simp add: writeMetaData_def metaData_ok [OF assms(1) d])
  show "writeMetaData db_ok t (Some b) = Inr (t, batch_put b (name t) (metaBytes (root t) (depth t)))"
    for b
    by (simp add: writeMetaData_def metaData_ok [OF assms(1) d])
  show "batch_apply (batch_put b (name t) (metaBytes (root t) (depth t))) s (name t)
        = Some (metaBytes (root t) (depth t))" for b s
    by (simp add: batch_put_def batch_apply_def)
  show "length (metaBytes (root t) (depth t)) = 40"
    using assms(1) by (simp add: metaBytes_def u32le_def)
  show "take 32 (metaBytes (root t) (depth t)) = root t"
    using assms(1) by (simp add: metaBytes_def)
  show "take 4 (drop 32 (metaBytes (root t) (depth t))) = u32le (depth t)"
    using assms(1) by (simp add: metaBytes_def u32le_def)
  fix s assume "s (name t) = Some (metaBytes (root t) (depth t))"
  with assms show "new H db_ok s (name t) d_opt =
      Inr \<lparr>name = name t, depth = depth t, root = root t, cache = Map.empty, db = s\<rparr>"
    by (intro restore_metaBytes)
qed

text \<open>Claim C6 for a tree of depth 5.\<close>

theorem restore_persisted_metadata_witness:
  "\<exists>data. writeMetaData True tree3 None = Inr (tree3\<lparr>db := [''t'' \<mapsto> data]\<rparr>, [])
     \<and> new toyHasher True [''t'' \<mapsto> data] ''t'' None =
         Inr \<lparr>name = ''t'', depth = 5, root = replicate 32 7, cache = Map.empty,
              db = [''t'' \<mapsto> data]\<rparr>"
proof -
  have h: "length (root tree3) = 32" "1 \<le> depth tree3" "depth tree3 \<le> MAX_DEPTH"
    by (simp_all add: tree3_def MAX_DEPTH_def)
  from restore_persisted_metadata [OF h, where db_ok = True and H = toyHasher and d_opt = None]
  obtain data where
    w: "writeMetaData True tree3 None = Inr (tree3\<lparr>db := (db tree3)(name tree3 \<mapsto> data)\<rparr>, [])"
    and n: "\<forall>s. s (name tree3) = Some data \<longrightarrow>
              new toyHasher True s (name tree3) None =
                Inr \<lparr>name = name tree3, depth = depth tree3, root = root tree3,
                     cache = Map.empty, db = s\<rparr>"
    by blast
  from n have "new toyHasher True [''t'' \<mapsto> data] ''t'' None =
         Inr \<lparr>name = ''t'', depth = 5, root = replicate 32 7, cache = Map.empty,
              db = [''t'' \<mapsto> data]\<rparr>"
    by (simp add: tree3_def)
  with w show ?thesis by (auto simp: tree3_def)
qed

subsection \<open>Pending keys: prefix, split and parseInt\<close>

lemma showInt_no_colon: "CHR '':'' \<notin> set (showInt i)"
  using showNat_no_colon by (simp add: showInt_def)

lemma updKey_inj [simp]: "updKey h i = updKey h' i' \<longleftrightarrow> h = h' \<and> i = i'"
proof
  assume "updKey h i = updKey h' i'"
  then have "showNat h @ CHR '':'' # showInt i = showNat h' @ CHR '':'' # showInt i'"
    by (simp add: updKey_def)
  then have "showNat h = showNat h' \<and> showInt i = showInt i'"
    by (rule sep_unique [OF showNat_no_colon showNat_no_colon])
  then show "h = h' \<and> i = i'"
    by (auto dest: showNat_inj showInt_inj)
qed simp

lemma startsWith_updKey [simp]:
  "startsWith (updKey h i) (showNat height @ '':'') \<longleftrightarrow> h = height"
proof
  assume "startsWith (updKey h i) (showNat height @ '':'')"
  then have "take (length (showNat height @ '':'')) (showNat h @ CHR '':'' # showInt i)
             = showNat height @ '':''"
    by (simp add: startsWith_def updKey_def)
  then have "showNat h @ CHR '':'' # showInt i
             = showNat height @ CHR '':'' # drop (length (showNat height @ '':''))
                 (showNat h @ CHR '':'' # showInt i)"
    by (metis append_take_drop_id append.assoc append_Cons append_Nil)
  then have "showNat h = showNat height"
    using sep_unique [OF showNat_no_colon showNat_no_colon] by blast
  then show "h = height" by (rule showNat_inj)
next
  assume "h = height"
  then show "startsWith (updKey h i) (showNat height @ '':'')"
    by (simp add: startsWith_def updKey_def)
qed

lemma split_no_sep: "c \<notin> set s \<Longrightarrow> split c s = [s]"
  by (induction s) auto

lemma split_sep: "c \<notin> set a \<Longrightarrow> split c (a @ c # b) = a # split c b"
  by (induction a) (auto split: list.splits)

lemma split_updKey: "split CHR '':'' (updKey h i) = [showNat h, showInt i]"
  by (simp add: updKey_def split_sep [OF showNat_no_colon] split_no_sep [OF showInt_no_colon])

lemma is_digit_not_space: "is_digit c \<Longrightarrow> \<not> is_space c"
  by (auto simp: is_digit_def is_space_def)

lemma takeWhile_all: "(\<And>x. x \<in> set xs \<Longrightarrow> P x) \<Longrightarrow> takeWhile P xs = xs"
  by (induction xs) auto

lemma showNat_hd_digit: "is_digit (hd (showNat n))"
  using showNat_digits [of "hd (showNat n)" n] showNat_nonempty [of n] by simp

lemma startsWith_set: "startsWith s p \<Longrightarrow> set p \<subseteq> set s"
  by (metis startsWith_def set_take_subset)

lemma showNat_not_hex: "\<not> startsWith (showNat n) ''0x''" "\<not> startsWith (showNat n) ''0X''"
  using startsWith_set [of "showNat n" "''0x''"] startsWith_set [of "showNat n" "''0X''"]
    showNat_digits [of "CHR ''x''" n] showNat_digits [of "CHR ''X''" n]
  by (auto simp: is_digit_def)

lemma parseInt_showNat_aux:
  "takeWhile is_digit (showNat n) = showNat n" "dropWhile is_space (showNat n) = showNat n"
proof -
  show "takeWhile is_digit (showNat n) = showNat n"
    by (rule takeWhile_all) (rule showNat_digits)
  have "\<not> is_space (hd (showNat n))"
    using showNat_hd_digit by (rule is_digit_not_space)
  then show "dropWhile is_space (showNat n) = showNat n"
    using showNat_nonempty [of n] by (cases "showNat n") auto
qed

lemma hd_showNat_not_sign: "hd (showNat n) \<noteq> CHR ''-''" "hd (showNat n) \<noteq> CHR ''+''"
  using showNat_hd_digit [of n] by (auto simp: is_digit_def)

lemma parseInt_showInt: "parseInt (showInt i) = Some i"
proof (cases "i < 0")
  case True
  have "\<not> is_space CHR ''-''" by (simp add: is_space_def)
  with True show ?thesis
    by (simp add: parseInt_def showInt_def Let_def showNat_not_hex parseInt_showNat_aux
        showNat_nonempty readNat_showNat)
next
  case False
  then show ?thesis
    by (simp add: parseInt_def showInt_def Let_def showNat_not_hex parseInt_showNat_aux
        showNat_nonempty readNat_showNat hd_showNat_not_sign)
qed

lemma those_all_Some: "\<forall>y \<in> set ys. y \<noteq> None \<Longrightarrow> those ys = Some (map the ys)"
  by (induction ys) auto

lemma levelIndices_wf:
  assumes "wfKeys nu"
  shows "\<exists>L. those (levelIndices h nu) = Some L \<and> set L = {x. updKey h x \<in> fst ` set nu}"
proof -
  define parse where
    "parse = (\<lambda>key. case drop 1 (split CHR '':'' key) of [] \<Rightarrow> None | p # ps \<Rightarrow> parseInt p)"
  define sw where "sw = (\<lambda>key. startsWith key (showNat h @ '':''))"
  define ys where "ys = map parse (filter sw (map fst nu))"
  have lv: "levelIndices h nu = js_set ys"
    by (simp add: levelIndices_def ys_def parse_def sw_def)
  have parse: "parse (updKey k x) = Some x" for k x
    by (simp add: parse_def split_updKey parseInt_showInt)
  have sw: "sw (updKey k x) \<longleftrightarrow> k = h" for k x
    by (simp add: sw_def)
  have ys: "set ys = Some ` {x. updKey h x \<in> fst ` set nu}"
  proof (intro set_eqI iffI)
    fix y assume "y \<in> set ys"
    then obtain key where key: "key \<in> fst ` set nu" "sw key" "y = parse key"
      by (auto simp: ys_def)
    from assms key(1) obtain k x where "key = updKey k x" by (auto simp: wfKeys_def)
    with key show "y \<in> Some ` {x. updKey h x \<in> fst ` set nu}"
      by (auto simp: parse sw)
  next
    fix y assume "y \<in> Some ` {x. updKey h x \<in> fst ` set nu}"
    then obtain x where x: "y = Some x" "updKey h x \<in> fst ` set nu" by auto
    then have "updKey h x \<in> set (filter sw (map fst nu))" by (simp add: sw)
    then have "parse (updKey h x) \<in> set ys" unfolding ys_def set_map by (rule imageI)
    with x(1) show "y \<in> set ys" by (simp only: parse)
  qed
  have js: "set (js_set ys) = set ys" by (simp add: js_set_def)
  have "\<forall>y \<in> set (js_set ys). y \<noteq> None"
    unfolding js ys by auto
  then have "those (js_set ys) = Some (map the (js_set ys))" by (rule those_all_Some)
  moreover have "set (map the (js_set ys)) = {x. updKey h x \<in> fst ` set nu}"
    unfolding set_map js ys by (auto simp: image_image)
  ultimately show ?thesis
    unfolding lv by blast
qed

subsection \<open>The digests after a set of updates\<close>

lemma touched_0 [simp]: "touched m 0 x \<longleftrightarrow> x \<in> dom m"
  by (auto simp: touched_def)

lemma div_pow_Suc: "(i::int) div 2 ^ Suc h = i div 2 ^ h div 2"
proof -
  have "i div (2 ^ h * 2) = i div 2 ^ h div 2"
    by (rule zdiv_zmult2_eq) simp
  then show ?thesis by (simp add: mult.commute)
qed

lemma touched_parent: "touched m h x \<Longrightarrow> touched m (Suc h) (x div 2)"
  unfolding touched_def by (auto simp: div_pow_Suc simp del: power_Suc)

lemma touched_Suc: "touched m (Suc h) p \<longleftrightarrow> (\<exists>x. touched m h x \<and> x div 2 = p)"
  unfolding touched_def by (auto simp: div_pow_Suc simp del: power_Suc)

lemma touched_nonneg: "\<forall>i \<in> dom m. 0 \<le> i \<Longrightarrow> touched m h x \<Longrightarrow> 0 \<le> x"
  unfolding touched_def by (auto simp: pos_imp_zdiv_nonneg_iff)

lemma finalNode_untouched: "\<not> touched m h x \<Longrightarrow> finalNode H rd m h x = rd x h"
  by (cases h) (auto simp: domIff)

lemma finalNode_empty [simp]: "finalNode H rd Map.empty h x = rd x h"
  by (rule finalNode_untouched) (simp add: touched_def)

lemma children_nonneg:
  assumes "0 \<le> x"
  shows "(if isRight x then pairIndex x else x) = 2 * (x div 2)"
    and "(if isRight x then x else pairIndex x) = 2 * (x div 2) + 1"
  using assms by (auto simp: isRight_nonneg pairIndex_def elim: oddE)

lemma parent_compress:
  assumes "0 \<le> x"
  shows "(if isRight x then compress H (g (pairIndex x)) (g x) else compress H (g x) (g (pairIndex x)))
         = compress H (g (2 * (x div 2))) (g (2 * (x div 2) + 1))"
  using children_nonneg [OF assms] by (cases "isRight x") simp_all

lemma finalNode_parent:
  assumes "touched m h x"
  shows "finalNode H rd m (Suc h) (x div 2)
         = compress H (finalNode H rd m h (2 * (x div 2))) (finalNode H rd m h (2 * (x div 2) + 1))"
  using touched_parent [OF assms] by simp

text \<open>A leaf added outside a subtree leaves the subtree as it was.\<close>

lemma touched_upd_other:
  "x \<noteq> i div 2 ^ h \<Longrightarrow> touched (m(i \<mapsto> v)) h x = touched m h x"
  by (auto simp: touched_def)

lemma finalNode_upd_other:
  "x \<noteq> i div 2 ^ h \<Longrightarrow> finalNode H rd (m(i \<mapsto> v)) h x = finalNode H rd m h x"
proof (induction h arbitrary: x)
  case 0
  then show ?case by simp
next
  case (Suc h)
  from Suc.prems have ne: "x \<noteq> i div 2 ^ h div 2"
    by (simp add: div_pow_Suc del: power_Suc)
  then have c: "2 * x \<noteq> i div 2 ^ h" "2 * x + 1 \<noteq> i div 2 ^ h"
    by auto
  have t: "touched (m(i \<mapsto> v)) (Suc h) x = touched m (Suc h) x"
    using Suc.prems by (rule touched_upd_other)
  show ?case
    by (simp only: finalNode.simps t Suc.IH [OF c(1)] Suc.IH [OF c(2)])
qed

subsection \<open>One sequential update\<close>

lemma updateElement_loop_read_path:
  assumes "readNode H t c height = v" and "height \<le> k" and "k \<le> depth t"
  shows "readNode H (fst (snd (updateElement_loop H height c v t b))) (c div 2 ^ (k - height)) k
         = climb H v c (siblings (readNode H t) k height c)"
  using assms
proof (induction "depth t - height" arbitrary: height c v t b)
  case 0
  then have "k = height" by simp
  with 0 show ?case by (simp add: updateElement_loop_done siblings_done)
next
  case (Suc n)
  define v' where "v' = (if isRight c then compress H (readNode H t (pairIndex c) height) v
                else compress H v (readNode H t (pairIndex c) height))"
  define t' where "t' = fst (updateNode (snd (getNode H t (pairIndex c) height)) (c div 2) (Suc height) v' b)"
  define b' where "b' = snd (updateNode (snd (getNode H t (pairIndex c) height)) (c div 2) (Suc height) v' b)"
  from Suc.hyps(2) have lt: "height < depth t" by simp
  have d: "depth t' = depth t" by (simp add: t'_def)
  with Suc.hyps(2) have n: "n = depth t' - Suc height" by simp
  have step: "updateElement_loop H height c v t b = updateElement_loop H (Suc height) (c div 2) v' t' b'"
    using lt by (simp add: updateElement_loop_step Let_def v'_def [symmetric]
        t'_def [symmetric] b'_def [symmetric])
  show ?case
  proof (cases "k = height")
    case True
    have "readNode H (fst (snd (updateElement_loop H (Suc height) (c div 2) v' t' b'))) c height
          = readNode H t' c height"
      by (rule updateElement_loop_read_other) simp
    also have "\<dots> = v" using Suc.prems(1) by (simp add: t'_def)
    finally show ?thesis using True by (simp add: step siblings_done)
  next
    case False
    with Suc.prems have k: "Suc height \<le> k" by simp
    have own: "readNode H t' (c div 2) (Suc height) = v'" by (simp add: t'_def)
    have sib: "siblings (readNode H t') k (Suc height) (c div 2)
               = siblings (readNode H t) k (Suc height) (c div 2)"
    proof (rule siblings_cong)
      fix j assume "Suc height \<le> j" "j < k"
      then show "readNode H t' (pairIndex (c div 2 div 2 ^ (j - Suc height))) j
                 = readNode H t (pairIndex (c div 2 div 2 ^ (j - Suc height))) j"
        by (cases "j = Suc height") (simp_all add: t'_def)
    qed
    from k have hk: "height < k" by simp
    from Suc.prems(3) d have kd: "k \<le> depth t'" by simp
    have "readNode H (fst (snd (updateElement_loop H (Suc height) (c div 2) v' t' b')))
            (c div 2 div 2 ^ (k - Suc height)) k
          = climb H v' (c div 2) (siblings (readNode H t') k (Suc height) (c div 2))"
      by (rule Suc.hyps(1) [OF n own k kd])
    then show ?thesis
      using hk by (simp add: step sib siblings_step div2_pow_shift v'_def)
  qed
qed

lemma updateElement_read_path:
  assumes "k \<le> depth t"
  shows "readNode H (snd (updateElement H db_ok t i v)) (i div 2 ^ k) k
         = climb H (hash H v) i (siblings (readNode H t) k 0 i)"
proof -
  let ?t0 = "fst (leafState H t i v)"
  have own: "readNode H ?t0 i 0 = hash H v" by (simp add: leafState_def)
  have d: "k \<le> depth ?t0" using assms by (simp add: leafState_def)
  have "siblings (readNode H ?t0) k 0 i = siblings (readNode H t) k 0 i"
    by (rule siblings_cong) (auto simp: leafState_def)
  with updateElement_loop_read_path [OF own _ d, where b = "snd (leafState H t i v)"]
  show ?thesis
    by (simp add: updateElement_read loopResult_def)
qed

lemma climb_finalNode:
  assumes "0 \<le> i" and "m i = Some v"
    and "\<And>x k. k < d \<Longrightarrow> x \<noteq> i div 2 ^ k \<Longrightarrow> rd' x k = finalNode H rd m k x"
    and "h \<le> d"
  shows "climb H (finalNode H rd m h (i div 2 ^ h)) (i div 2 ^ h) (siblings rd' d h (i div 2 ^ h))
         = finalNode H rd m d (i div 2 ^ d)"
  using assms(4)
proof (induction "d - h" arbitrary: h)
  case 0
  then show ?case by (simp add: siblings_done)
next
  case (Suc n)
  let ?c = "i div 2 ^ h"
  from Suc.hyps(2) have lt: "h < d" and n: "n = d - Suc h" and le: "Suc h \<le> d" by simp_all
  from assms(1) have c0: "0 \<le> ?c" by (simp add: pos_imp_zdiv_nonneg_iff)
  from assms(2) have tc: "touched m h ?c" by (auto simp: touched_def)
  have sib: "rd' (pairIndex ?c) h = finalNode H rd m h (pairIndex ?c)"
    by (rule assms(3) [OF lt]) simp
  have "(if isRight ?c then compress H (rd' (pairIndex ?c) h) (finalNode H rd m h ?c)
         else compress H (finalNode H rd m h ?c) (rd' (pairIndex ?c) h))
        = finalNode H rd m (Suc h) (?c div 2)"
    unfolding sib finalNode_parent [OF tc] by (rule parent_compress [OF c0])
  moreover have "?c div 2 = i div 2 ^ Suc h" by (simp only: div_pow_Suc)
  ultimately show ?case
    using Suc.hyps(1) [OF n le] lt
    by (simp add: siblings_step del: power_Suc)
qed

text \<open>One sequential update, seen through the nodes the tree reports.\<close>

lemma updateElement_finalNode:
  assumes inv: "\<And>k x. k \<le> depth t \<Longrightarrow> readNode H t x k = finalNode H rd m k x"
    and new: "i \<notin> dom m" and nonneg: "0 \<le> i" and k: "k \<le> depth t"
  shows "readNode H (snd (updateElement H db_ok t i v)) x k = finalNode H rd (m(i \<mapsto> v)) k x"
    and "root (snd (updateElement H db_ok t i v)) = finalNode H rd (m(i \<mapsto> v)) (depth t) (i div 2 ^ depth t)"
proof -
  let ?m = "m(i \<mapsto> v)"
  have rd': "readNode H t x k = finalNode H rd ?m k x" if "k < d" "d \<le> depth t" "x \<noteq> i div 2 ^ k" for x k d
    using that inv [of k x] by (simp add: finalNode_upd_other)
  have path: "climb H (hash H v) i (siblings (readNode H t) d 0 i) = finalNode H rd ?m d (i div 2 ^ d)"
    if "d \<le> depth t" for d
    using climb_finalNode [of i ?m v d "readNode H t" H rd 0] nonneg rd' [OF _ that] by simp
  show "readNode H (snd (updateElement H db_ok t i v)) x k = finalNode H rd ?m k x"
  proof (cases "x = i div 2 ^ k")
    case True
    then show ?thesis using path [OF k] by (simp add: updateElement_read_path [OF k])
  next
    case False
    then show ?thesis
      using inv [OF k, of x] by (simp add: updateElement_read_other finalNode_upd_other)
  qed
  show "root (snd (updateElement H db_ok t i v)) = finalNode H rd ?m (depth t) (i div 2 ^ depth t)"
    using path [of "depth t"] by (simp add: updateElement_root newRoot_def)
qed

lemma sameFrame_refl [simp]: "sameFrame t t"
  by (simp add: sameFrame_def)

lemma sameFrame_trans: "sameFrame t t' \<Longrightarrow> sameFrame t' t'' \<Longrightarrow> sameFrame t t''"
  by (simp add: sameFrame_def)

lemma sameFrame_getNode [simp]: "sameFrame t (snd (getNode H t i h))"
  by (simp add: sameFrame_def)

lemma sameFrame_updateNode [simp]: "sameFrame t (fst (updateNode t i h v b))"
  by (simp add: sameFrame_def)

subsection \<open>A sequence of updates\<close>

lemma leafMap_Cons: "leafMap (u # us) m = leafMap us (m(fst u \<mapsto> snd u))"
  by (simp add: leafMap_def)

lemma leafMap_Nil [simp]: "leafMap [] m = m"
  by (simp add: leafMap_def)

lemma dom_leafMap: "dom (leafMap us m) = dom m \<union> fst ` set us"
  by (induction us arbitrary: m) (auto simp: leafMap_Cons)

lemma leafMap_distinct:
  "distinct (map fst us) \<Longrightarrow> leafMap us Map.empty = map_of us"
proof -
  have "distinct (map fst us) \<Longrightarrow> fst ` set us \<inter> dom m = {} \<Longrightarrow> leafMap us m = m ++ map_of us" for m
  proof (induction us arbitrary: m)
    case Nil
    show ?case by simp
  next
    case (Cons u us)
    from Cons.prems have "fst ` set us \<inter> dom (m(fst u \<mapsto> snd u)) = {}" by auto
    moreover from Cons.prems have "distinct (map fst us)" by simp
    ultimately have "leafMap us (m(fst u \<mapsto> snd u)) = m(fst u \<mapsto> snd u) ++ map_of us"
      by (rule Cons.IH [rotated])
    also have "\<dots> = m ++ map_of (u # us)"
    proof (rule ext)
      fix x
      from Cons.prems(1) have "x = fst u \<Longrightarrow> map_of us x = None"
        by (auto simp: map_of_eq_None_iff)
      then show "(m(fst u \<mapsto> snd u) ++ map_of us) x = (m ++ map_of (u # us)) x"
        by (cases u) (auto simp: map_add_def split: option.splits)
    qed
    finally show ?case by (simp only: leafMap_Cons)
  qed
  from this [of Map.empty] show "distinct (map fst us) \<Longrightarrow> leafMap us Map.empty = map_of us"
    by simp
qed

lemma updateSequential_depth [simp]: "depth (updateSequential H t us) = depth t"
  by (induction us arbitrary: t) simp_all

lemma updateSequential_finalNode:
  assumes "distinct (map fst us)"
    and "\<And>i. i \<in> fst ` set us \<Longrightarrow> 0 \<le> i \<and> i < 2 ^ depth t \<and> i \<notin> dom m"
    and "\<And>k x. k \<le> depth t \<Longrightarrow> readNode H t x k = finalNode H rd m k x"
  shows "(\<forall>k x. k \<le> depth t \<longrightarrow>
            readNode H (updateSequential H t us) x k = finalNode H rd (leafMap us m) k x)
         \<and> (us \<noteq> [] \<longrightarrow>
              root (updateSequential H t us) = finalNode H rd (leafMap us m) (depth t) 0)"
  using assms
proof (induction us arbitrary: t m)
  case Nil
  then show ?case by simp
next
  case (Cons u us)
  obtain i v where u: "u = (i, v)" by (cases u)
  let ?t = "snd (updateElement H True t i v)"
  let ?m = "m(i \<mapsto> v)"
  from Cons.prems(2) [of i] u have i: "0 \<le> i" "i < 2 ^ depth t" "i \<notin> dom m" by simp_all
  have rd: "readNode H ?t x k = finalNode H rd ?m k x" if "k \<le> depth ?t" for k x
    using that updateElement_finalNode(1) [OF Cons.prems(3) i(3) i(1), of k] by simp
  have root: "root ?t = finalNode H rd ?m (depth t) 0"
    using updateElement_finalNode(2) [OF Cons.prems(3) i(3) i(1), of "depth t"] i(1,2)
    by simp
  have d: "distinct (map fst us)" using Cons.prems(1) by simp
  have dom: "0 \<le> j \<and> j < 2 ^ depth ?t \<and> j \<notin> dom ?m" if "j \<in> fst ` set us" for j
    using that Cons.prems(1) Cons.prems(2) [of j] u by auto
  have IH: "(\<forall>k x. k \<le> depth ?t \<longrightarrow>
            readNode H (updateSequential H ?t us) x k = finalNode H rd (leafMap us ?m) k x)
         \<and> (us \<noteq> [] \<longrightarrow>
              root (updateSequential H ?t us) = finalNode H rd (leafMap us ?m) (depth ?t) 0)"
    by (rule Cons.IH [OF d dom rd])
  have eq: "updateSequential H t (u # us) = updateSequential H ?t us"
    "leafMap (u # us) m = leafMap us ?m"
    by (simp_all add: u leafMap_Cons)
  from IH have A: "readNode H (updateSequential H ?t us) x k = finalNode H rd (leafMap us ?m) k x"
    if "k \<le> depth ?t" for k x
    using that by blast
  from IH have B: "us \<noteq> [] \<Longrightarrow>
      root (updateSequential H ?t us) = finalNode H rd (leafMap us ?m) (depth ?t) 0"
    by blast
  have dt: "depth ?t = depth t" by simp
  show ?case unfolding eq
  proof (intro conjI allI impI)
    fix k x assume "k \<le> depth t"
    then have "k \<le> depth ?t" by (simp only: dt)
    then show "readNode H (updateSequential H ?t us) x k = finalNode H rd (leafMap us ?m) k x"
      by (rule A)
  next
    show "root (updateSequential H ?t us) = finalNode H rd (leafMap us ?m) (depth t) 0"
    proof (cases "us = []")
      case True
      show ?thesis by (simp only: True updateSequential.simps leafMap_Nil root)
    next
      case False
      from B [OF False] show ?thesis by (simp only: dt)
    qed
  qed
qed

subsection \<open>The batch update: leaves, parents, heights\<close>

lemma wfKeys_Nil [simp]: "wfKeys []"
  by (simp add: wfKeys_def)

lemma wfKeys_update: "wfKeys nu \<Longrightarrow> wfKeys (AList.update (updKey k x) v nu)"
  by (auto simp: wfKeys_def dom_update)

lemma set_update_cases:
  "p \<in> set (AList.update k v al) \<Longrightarrow> p = (k, v) \<or> p \<in> set al"
  by (induction al) (auto split: if_splits)

lemma in_keys_iff: "k \<in> fst ` set al \<longleftrightarrow> map_of al k \<noteq> None"
  by (simp add: map_of_eq_None_iff)

text \<open>The leaves.\<close>

lemma updateLeaves_frame:
  "sameFrame t (fst (updateLeaves H ups t b nu)) \<and>
   (staged t b \<longrightarrow> staged (fst (updateLeaves H ups t b nu)) (fst (snd (updateLeaves H ups t b nu)))) \<and>
   (wfKeys nu \<longrightarrow> wfKeys (snd (snd (updateLeaves H ups t b nu)))) \<and>
   fst ` set b \<union> (\<lambda>i. nodeKey (name t) 0 i) ` fst ` set ups
     \<subseteq> fst ` set (fst (snd (updateLeaves H ups t b nu)))"
proof (induction ups arbitrary: t b nu)
  case Nil
  show ?case by simp
next
  case (Cons u ups)
  let ?t = "fst (updateNode t (fst u) 0 (hash H (snd u)) b)"
  let ?b = "snd (updateNode t (fst u) 0 (hash H (snd u)) b)"
  let ?nu = "AList.update (updKey 0 (fst u)) (hash H (snd u)) nu"
  have "sameFrame t ?t" by simp
  moreover have "staged t b \<Longrightarrow> staged ?t ?b" by (rule staged_updateNode)
  moreover have "wfKeys nu \<Longrightarrow> wfKeys ?nu" by (rule wfKeys_update)
  moreover have "fst ` set ?b = insert (nodeKey (name t) 0 (fst u)) (fst ` set b)"
    by (simp add: updateNode_def batch_put_def Let_def)
  moreover have "name ?t = name t" by simp
  ultimately show ?case
    using Cons.IH [of ?t ?b ?nu] by (auto simp: Let_def sameFrame_def)
qed

lemma readsOK_getNode: "readsOK H rd m t \<Longrightarrow> readsOK H rd m (snd (getNode H t i h))"
  by (simp add: readsOK_def)

lemma readsOK_updateNode:
  "readsOK H rd m t \<Longrightarrow> touched m h x \<Longrightarrow> readsOK H rd m (fst (updateNode t x h v b))"
  by (auto simp: readsOK_def)

lemma touched_mono: "touched m h x \<Longrightarrow> touched (m(i \<mapsto> v)) h x"
  by (auto simp: touched_def)

lemma readsOK_mono: "readsOK H rd m t \<Longrightarrow> readsOK H rd (m(i \<mapsto> v)) t"
  unfolding readsOK_def using touched_mono by blast

lemma pendingOK_leaf:
  assumes "pendingOK H rd m 0 nu"
  shows "pendingOK H rd (m(i \<mapsto> v)) 0 (AList.update (updKey 0 i) (hash H v) nu)"
proof -
  from assms have wf: "wfKeys nu"
    and look: "\<And>k x. map_of nu (updKey k x) =
                 (if k \<le> 0 \<and> touched m k x then Some (finalNode H rd m k x) else None)"
    by (simp_all add: pendingOK_def)
  have "map_of (AList.update (updKey 0 i) (hash H v) nu) (updKey k x) =
          (if k \<le> 0 \<and> touched (m(i \<mapsto> v)) k x then Some (finalNode H rd (m(i \<mapsto> v)) k x) else None)"
    for k x
    using look [of k x] by (cases "k = 0") (auto simp: update_conv' domIff split: option.splits)
  with wfKeys_update [OF wf] show ?thesis
    by (simp add: pendingOK_def)
qed

lemma updateLeaves_inv:
  assumes "pendingOK H rd m 0 nu" and "readsOK H rd m t"
  shows "pendingOK H rd (leafMap ups m) 0 (snd (snd (updateLeaves H ups t b nu))) \<and>
         readsOK H rd (leafMap ups m) (fst (updateLeaves H ups t b nu))"
  using assms
proof (induction ups arbitrary: t b nu m)
  case Nil
  then show ?case by simp
next
  case (Cons u ups)
  let ?t = "fst (updateNode t (fst u) 0 (hash H (snd u)) b)"
  let ?b = "snd (updateNode t (fst u) 0 (hash H (snd u)) b)"
  let ?nu = "AList.update (updKey 0 (fst u)) (hash H (snd u)) nu"
  let ?m = "m(fst u \<mapsto> snd u)"
  have p: "pendingOK H rd ?m 0 ?nu" using Cons.prems(1) by (rule pendingOK_leaf)
  have "readsOK H rd ?m t" using Cons.prems(2) by (rule readsOK_mono)
  then have r: "readsOK H rd ?m ?t"
    by (rule readsOK_updateNode) simp
  have "pendingOK H rd (leafMap ups ?m) 0 (snd (snd (updateLeaves H ups ?t ?b ?nu))) \<and>
         readsOK H rd (leafMap ups ?m) (fst (updateLeaves H ups ?t ?b ?nu))"
    using p r by (rule Cons.IH)
  then show ?case
    by (simp only: updateLeaves.simps Let_def leafMap_Cons)
qed

lemma updateParents_Cons:
  "updateParents H h nu (x # L) t b clu =
     (let c = readPending H nu t x h;
          s = readPending H nu (snd c) (pairIndex x) h;
          pv = (if isRight x then compress H (fst s) (fst c) else compress H (fst c) (fst s));
          t_b = updateNode (snd s) (x div 2) (Suc h) pv b
      in updateParents H h nu L (fst t_b) (snd t_b) (AList.update (x div 2) pv clu))"
  by (simp add: Let_def readPending_def)

lemma readPending_frame:
  "sameFrame t (snd (readPending H nu t x h))"
  "staged t b \<Longrightarrow> staged (snd (readPending H nu t x h)) b"
  "readsOK H rd m t \<Longrightarrow> readsOK H rd m (snd (readPending H nu t x h))"
  "readNode H (snd (readPending H nu t x h)) x' h' = readNode H t x' h'"
  by (auto simp: readPending_def staged_getNode readsOK_getNode split: option.splits)

lemma readPending_value:
  assumes "pendingOK H rd m h nu" and "readsOK H rd m t"
  shows "fst (readPending H nu t x h) = finalNode H rd m h x"
proof (cases "touched m h x")
  case True
  with assms(1) show ?thesis by (simp add: readPending_def pendingOK_def)
next
  case False
  with assms(1) have "map_of nu (updKey h x) = None" by (simp add: pendingOK_def)
  moreover from False assms(2) have "readNode H t x h = rd x h" by (simp add: readsOK_def)
  ultimately show ?thesis
    using False by (simp add: readPending_def finalNode_untouched readNode_def)
qed

lemma updateParents_frame:
  "sameFrame t (fst (updateParents H h nu L t b clu)) \<and>
   (staged t b \<longrightarrow> staged (fst (updateParents H h nu L t b clu))
                     (fst (snd (updateParents H h nu L t b clu)))) \<and>
   fst ` set (snd (snd (updateParents H h nu L t b clu))) = fst ` set clu \<union> (\<lambda>x. x div 2) ` set L \<and>
   set b \<subseteq> set (fst (snd (updateParents H h nu L t b clu))) \<and>
   (\<forall>x. readNode H (fst (updateParents H h nu L t b clu)) x 0 = readNode H t x 0)"
proof (induction L arbitrary: t b clu)
  case Nil
  show ?case by simp
next
  case (Cons x L)
  define c where "c = readPending H nu t x h"
  define s where "s = readPending H nu (snd c) (pairIndex x) h"
  define pv where "pv = (if isRight x then compress H (fst s) (fst c) else compress H (fst c) (fst s))"
  define t' where "t' = fst (updateNode (snd s) (x div 2) (Suc h) pv b)"
  define b' where "b' = snd (updateNode (snd s) (x div 2) (Suc h) pv b)"
  have eq: "updateParents H h nu (x # L) t b clu
            = updateParents H h nu L t' b' (AList.update (x div 2) pv clu)"
    by (simp only: updateParents_Cons Let_def c_def s_def pv_def t'_def b'_def)
  have f: "sameFrame t t'"
    using readPending_frame(1) [of t H nu x h] readPending_frame(1) [of "snd c" H nu "pairIndex x" h]
    by (simp add: t'_def s_def c_def sameFrame_def)
  have st: "staged t b \<Longrightarrow> staged t' b'"
    unfolding t'_def b'_def s_def c_def
    by (intro staged_updateNode readPending_frame(2))
  have sb: "set b \<subseteq> set b'"
    by (auto simp: b'_def updateNode_def batch_put_def Let_def)
  have r0: "readNode H t' y 0 = readNode H t y 0" for y
    by (simp add: t'_def s_def c_def readPending_frame(4))
  from Cons.IH [of t' b' "AList.update (x div 2) pv clu"] f st sb r0 show ?case
    unfolding eq by (auto simp: sameFrame_def dom_update)
qed

lemma updateParents_inv:
  assumes "pendingOK H rd m h nu" and "readsOK H rd m t"
    and "\<And>x. x \<in> set L \<Longrightarrow> touched m h x \<and> 0 \<le> x"
    and "cluOK H rd m h clu"
  shows "readsOK H rd m (fst (updateParents H h nu L t b clu)) \<and>
         cluOK H rd m h (snd (snd (updateParents H h nu L t b clu)))"
  using assms(2-4)
proof (induction L arbitrary: t b clu)
  case Nil
  then show ?case by simp
next
  case (Cons x L)
  define c where "c = readPending H nu t x h"
  define s where "s = readPending H nu (snd c) (pairIndex x) h"
  define pv where "pv = (if isRight x then compress H (fst s) (fst c) else compress H (fst c) (fst s))"
  define t' where "t' = fst (updateNode (snd s) (x div 2) (Suc h) pv b)"
  define b' where "b' = snd (updateNode (snd s) (x div 2) (Suc h) pv b)"
  have eq: "updateParents H h nu (x # L) t b clu
            = updateParents H h nu L t' b' (AList.update (x div 2) pv clu)"
    by (simp only: updateParents_Cons Let_def c_def s_def pv_def t'_def b'_def)
  from Cons.prems(2) [of x] have tx: "touched m h x" and x0: "0 \<le> x" by simp_all
  have rc: "readsOK H rd m (snd c)"
    unfolding c_def using Cons.prems(1) by (rule readPending_frame(3))
  then have rs: "readsOK H rd m (snd s)"
    unfolding s_def by (rule readPending_frame(3))
  have vc: "fst c = finalNode H rd m h x"
    unfolding c_def using assms(1) Cons.prems(1) by (rule readPending_value)
  have vs: "fst s = finalNode H rd m h (pairIndex x)"
    unfolding s_def using assms(1) rc by (rule readPending_value)
  have pv: "pv = finalNode H rd m (Suc h) (x div 2)"
    unfolding pv_def vc vs finalNode_parent [OF tx] by (rule parent_compress [OF x0])
  have tp: "touched m (Suc h) (x div 2)" using tx by (rule touched_parent)
  have r': "readsOK H rd m t'"
    unfolding t'_def using rs tp by (rule readsOK_updateNode)
  have c': "cluOK H rd m h (AList.update (x div 2) pv clu)"
    using Cons.prems(3) tp pv by (auto simp: cluOK_def dest!: set_update_cases)
  have "readsOK H rd m (fst (updateParents H h nu L t' b' (AList.update (x div 2) pv clu))) \<and>
         cluOK H rd m h (snd (snd (updateParents H h nu L t' b' (AList.update (x div 2) pv clu))))"
    using r' _ c' by (rule Cons.IH) (simp add: Cons.prems(2))
  then show ?case unfolding eq .
qed

lemma wfKeys_fold:
  "wfKeys nu \<Longrightarrow> wfKeys (fold (\<lambda>(index, v). AList.update (updKey k index) v) clu nu)"
  by (induction clu arbitrary: nu) (auto simp: wfKeys_update)

lemma map_of_fold_pending:
  assumes "\<And>p. p \<in> set clu \<Longrightarrow> snd p = G (fst p)"
  shows "map_of (fold (\<lambda>(index, v). AList.update (updKey k index) v) clu nu) (updKey k' x)
         = (if k' = k \<and> x \<in> fst ` set clu then Some (G x) else map_of nu (updKey k' x))"
  using assms
proof (induction clu arbitrary: nu)
  case Nil
  show ?case by simp
next
  case (Cons p clu)
  obtain i v where p: "p = (i, v)" by (cases p)
  from Cons.prems [of p] p have v: "v = G i" by simp
  have "map_of (fold (\<lambda>(index, v). AList.update (updKey k index) v) clu
                  (AList.update (updKey k i) v nu)) (updKey k' x)
        = (if k' = k \<and> x \<in> fst ` set clu then Some (G x)
           else map_of (AList.update (updKey k i) v nu) (updKey k' x))"
    by (rule Cons.IH) (simp add: Cons.prems)
  then show ?case
    by (auto simp: p v update_conv')
qed

lemma updateLevels_done:
  "\<not> h < depth t \<Longrightarrow> updateLevels H h t b nu = Inr (t, b, nu)"
  by (subst updateLevels.simps) simp

lemma updateLevels_step:
  assumes "h < depth t" and "those (levelIndices h nu) = Some L"
  shows "updateLevels H h t b nu =
           updateLevels H (Suc h) (fst (updateParents H h nu L t b []))
             (fst (snd (updateParents H h nu L t b [])))
             (fold (\<lambda>(index, v). AList.update (updKey (Suc h) index) v)
                (snd (snd (updateParents H h nu L t b []))) nu)"
  using assms by (subst updateLevels.simps) (simp add: Let_def)

text \<open>The loop over the heights never meets NaN: it returns.\<close>

lemma updateLevels_no_NaN:
  assumes "wfKeys nu"
  shows "\<exists>t' b' nu'. updateLevels H h t b nu = Inr (t', b', nu') \<and> sameFrame t t' \<and>
           (staged t b \<longrightarrow> staged t' b') \<and> wfKeys nu' \<and> set b \<subseteq> set b' \<and>
           (\<forall>x. readNode H t' x 0 = readNode H t x 0)"
  using assms
proof (induction "depth t - h" arbitrary: h t b nu)
  case 0
  then show ?case by (simp add: updateLevels_done)
next
  case (Suc n)
  from Suc.hyps(2) have lt: "h < depth t" by simp
  from levelIndices_wf [OF Suc.prems] obtain L where L: "those (levelIndices h nu) = Some L"
    by blast
  define t1 where "t1 = fst (updateParents H h nu L t b [])"
  define b1 where "b1 = fst (snd (updateParents H h nu L t b []))"
  define nu1 where "nu1 = fold (\<lambda>(index, v). AList.update (updKey (Suc h) index) v)
                (snd (snd (updateParents H h nu L t b []))) nu"
  have eq: "updateLevels H h t b nu = updateLevels H (Suc h) t1 b1 nu1"
    unfolding t1_def b1_def nu1_def using lt L by (rule updateLevels_step)
  from updateParents_frame [of t H h nu L b "[]"]
  have f: "sameFrame t t1" and st: "staged t b \<Longrightarrow> staged t1 b1"
    and sb: "set b \<subseteq> set b1" and r0: "\<And>x. readNode H t1 x 0 = readNode H t x 0"
    by (simp_all add: t1_def b1_def)
  have wf: "wfKeys nu1" unfolding nu1_def using Suc.prems by (rule wfKeys_fold)
  from f Suc.hyps(2) have "n = depth t1 - Suc h" by (simp add: sameFrame_def)
  from Suc.hyps(1) [OF this wf, of b1] obtain t' b' nu'
    where res: "updateLevels H (Suc h) t1 b1 nu1 = Inr (t', b', nu')"
      and f': "sameFrame t1 t'" and st': "staged t1 b1 \<longrightarrow> staged t' b'"
      and wf': "wfKeys nu'" and sb': "set b1 \<subseteq> set b'"
      and r0': "\<forall>x. readNode H t' x 0 = readNode H t1 x 0"
    by blast
  from f f' have "sameFrame t t'" by (rule sameFrame_trans)
  moreover from st st' have "staged t b \<longrightarrow> staged t' b'" by blast
  moreover from sb sb' have "set b \<subseteq> set b'" by (rule subset_trans)
  moreover from r0 r0' have "\<forall>x. readNode H t' x 0 = readNode H t x 0" by simp
  ultimately show ?case
    unfolding eq using res wf' by blast
qed

lemma updateLevels_inv:
  assumes "pendingOK H rd m h nu" and "readsOK H rd m t" and "\<forall>i \<in> dom m. 0 \<le> i"
    and "h \<le> depth t"
  shows "\<exists>t' b' nu'. updateLevels H h t b nu = Inr (t', b', nu') \<and>
           pendingOK H rd m (depth t) nu' \<and> readsOK H rd m t'"
  using assms(1,2,4)
proof (induction "depth t - h" arbitrary: h t b nu)
  case 0
  then show ?case by (simp add: updateLevels_done)
next
  case (Suc n)
  from Suc.hyps(2) have lt: "h < depth t" by simp
  from Suc.prems(1) have wf: "wfKeys nu"
    and look: "\<And>k x. map_of nu (updKey k x) =
                 (if k \<le> h \<and> touched m k x then Some (finalNode H rd m k x) else None)"
    by (simp_all add: pendingOK_def)
  from levelIndices_wf [OF wf] obtain L where L: "those (levelIndices h nu) = Some L"
    and setL: "set L = {x. updKey h x \<in> fst ` set nu}"
    by blast
  have inL: "x \<in> set L \<longleftrightarrow> touched m h x" for x
    unfolding setL using look [of h x] by (simp add: in_keys_iff)
  define clu where "clu = snd (snd (updateParents H h nu L t b []))"
  define t1 where "t1 = fst (updateParents H h nu L t b [])"
  define b1 where "b1 = fst (snd (updateParents H h nu L t b []))"
  define nu1 where "nu1 = fold (\<lambda>(index, v). AList.update (updKey (Suc h) index) v) clu nu"
  have eq: "updateLevels H h t b nu = updateLevels H (Suc h) t1 b1 nu1"
    unfolding t1_def b1_def nu1_def clu_def using lt L by (rule updateLevels_step)
  have "readsOK H rd m t1 \<and> cluOK H rd m h clu"
    unfolding t1_def clu_def using Suc.prems(1,2)
  proof (rule updateParents_inv)
    fix x assume "x \<in> set L"
    then have "touched m h x" by (simp add: inL)
    with assms(3) show "touched m h x \<and> 0 \<le> x" by (auto dest: touched_nonneg)
  next
    show "cluOK H rd m h []" by (simp add: cluOK_def)
  qed
  then have r1: "readsOK H rd m t1" and c: "cluOK H rd m h clu" by simp_all
  from updateParents_frame [of t H h nu L b "[]"]
  have f: "sameFrame t t1" and keys: "fst ` set clu = (\<lambda>x. x div 2) ` set L"
    by (simp_all add: t1_def clu_def)
  have keys': "x \<in> fst ` set clu \<longleftrightarrow> touched m (Suc h) x" for x
    unfolding keys touched_Suc [of m h x] by (auto simp: inL)
  have "map_of nu1 (updKey k x) =
          (if k \<le> Suc h \<and> touched m k x then Some (finalNode H rd m k x) else None)" for k x
  proof -
    have "map_of nu1 (updKey k x) =
            (if k = Suc h \<and> x \<in> fst ` set clu then Some (finalNode H rd m (Suc h) x)
             else map_of nu (updKey k x))"
      unfolding nu1_def using c by (intro map_of_fold_pending) (simp add: cluOK_def)
    then show ?thesis
      using look [of k x] by (auto simp: keys' le_Suc_eq)
  qed
  moreover have "wfKeys nu1" unfolding nu1_def using wf by (rule wfKeys_fold)
  ultimately have p1: "pendingOK H rd m (Suc h) nu1" by (simp add: pendingOK_def)
  from f have d: "depth t1 = depth t" by (simp add: sameFrame_def)
  with Suc.hyps(2) have n: "n = depth t1 - Suc h" by simp
  from lt d have le: "Suc h \<le> depth t1" by simp
  from Suc.hyps(1) [OF n p1 r1 le, of b1] show ?case
    unfolding eq d .
qed

subsection \<open>What updateElements returns and leaves behind\<close>

lemma batchLevels_structure:
  "\<exists>t' b' nu'. batchLevels H t ups = Inr (t', b', nu') \<and> sameFrame t t' \<and> staged t' b' \<and> wfKeys nu'"
proof -
  from updateLeaves_frame [of t H ups "[]" "[]"]
  have f: "sameFrame t (fst (batchLeaves H t ups))"
    and st: "staged (fst (batchLeaves H t ups)) (fst (snd (batchLeaves H t ups)))"
    and wf: "wfKeys (snd (snd (batchLeaves H t ups)))"
    by (simp_all add: batchLeaves_def)
  from updateLevels_no_NaN [OF wf, of H 0 "fst (batchLeaves H t ups)" "fst (snd (batchLeaves H t ups))"]
    f st show ?thesis
    by (auto simp: batchLevels_def sameFrame_def)
qed

lemma updateElements_unfold:
  assumes "ups \<noteq> []" and "batchLevels H t ups = Inr (t', b', nu')"
  shows "updateElements H db_ok t ups =
     (let t1 = t'\<lparr>root := batchRoot t' nu'\<rparr> in
      if 2 ^ 32 \<le> depth t' then (Inl RangeError, t1)
      else if db_ok then
        (Inr (batchRoot t' nu'),
         t1\<lparr>db := batch_apply (batch_put b' (name t')
                    (take 32 (copy (batchRoot t' nu') (alloc 40)) @ u32le (depth t')
                     @ drop 36 (copy (batchRoot t' nu') (alloc 40)))) (db t')\<rparr>)
      else (Inl DbError, t1))"
  using assms
  by (simp add: updateElements_def Let_def batchLevels_def [symmetric] batchLeaves_def [symmetric]
      batchRoot_def [symmetric] writeMetaData_def metaData_cases batch_write_def
      del: One_nat_def)

lemma updateElements_fst:
  assumes "ups \<noteq> []"
  shows "fst (updateElements H db_ok t ups) =
           (if 2 ^ 32 \<le> depth t then Inl RangeError
            else if db_ok then Inr (root (snd (updateElements H db_ok t ups)))
            else Inl DbError)"
proof -
  from batchLevels_structure [of H t ups] obtain t' b' nu'
    where r: "batchLevels H t ups = Inr (t', b', nu')" and f: "sameFrame t t'" by blast
  from f show ?thesis
    by (simp add: updateElements_unfold [OF assms r] Let_def sameFrame_def)
qed

lemma updateElements_root:
  assumes "ups \<noteq> []" and "\<forall>i \<in> fst ` set ups. 0 \<le> i"
  shows "root (snd (updateElements H db_ok t ups)) =
           (if touched (leafMap ups Map.empty) (depth t) 0
            then finalNode H (readNode H t) (leafMap ups Map.empty) (depth t) 0
            else root t)"
proof -
  let ?rd = "readNode H t" and ?m = "leafMap ups Map.empty"
  from batchLevels_structure [of H t ups] obtain t' b' nu'
    where r: "batchLevels H t ups = Inr (t', b', nu')" and f: "sameFrame t t'" by blast
  have p0: "pendingOK H ?rd Map.empty 0 []"
    by (simp add: pendingOK_def touched_def)
  have r0: "readsOK H ?rd Map.empty t"
    by (simp add: readsOK_def)
  from updateLeaves_inv [OF p0 r0, of ups "[]"]
  have p1: "pendingOK H ?rd ?m 0 (snd (snd (batchLeaves H t ups)))"
    and r1: "readsOK H ?rd ?m (fst (batchLeaves H t ups))"
    by (simp_all add: batchLeaves_def)
  from assms(2) have nn: "\<forall>i \<in> dom ?m. 0 \<le> i" by (simp add: dom_leafMap)
  from updateLevels_inv [OF p1 r1 nn, of "fst (snd (batchLeaves H t ups))"] r
  have "pendingOK H ?rd ?m (depth (fst (batchLeaves H t ups))) nu'"
    by (auto simp: batchLevels_def)
  moreover from updateLeaves_frame [of t H ups "[]" "[]"]
  have "depth (fst (batchLeaves H t ups)) = depth t"
    by (simp add: batchLeaves_def sameFrame_def)
  ultimately have "pendingOK H ?rd ?m (depth t) nu'" by simp
  then have "batchRoot t' nu' = (if touched ?m (depth t) 0 then finalNode H ?rd ?m (depth t) 0 else root t)"
    using f by (simp add: batchRoot_def pendingOK_def sameFrame_def)
  then show ?thesis
    by (simp add: updateElements_unfold [OF assms(1) r] Let_def)
qed

lemma updateElements_root_sequential:
  assumes "distinct (map fst ups)"
    and "\<forall>i \<in> fst ` set ups. 0 \<le> i \<and> i < 2 ^ depth t"
    and "mset ups' = mset ups"
    and "ups \<noteq> []"
  shows "root (snd (updateElements H db_ok t ups)) = root (updateSequential H t ups')"
proof -
  let ?rd = "readNode H t" and ?d = "depth t"
  from assms(3) have set: "set ups' = set ups" by (rule mset_eq_setD)
  from assms(3) have "mset (map fst ups') = mset (map fst ups)" by simp
  then have "distinct (map fst ups') = distinct (map fst ups)"
    by (rule mset_eq_imp_distinct_iff)
  with assms(1) have dist': "distinct (map fst ups')" by simp
  from assms(4) set have ne': "ups' \<noteq> []" by auto
  have m: "leafMap ups' Map.empty = leafMap ups Map.empty"
    using dist' assms(1) set
    by (simp add: leafMap_distinct map_of_inject_set)
  from assms(4) obtain i where i: "i \<in> fst ` set ups" by (cases ups) auto
  with assms(2) have "0 \<le> i" "i < 2 ^ ?d" by auto
  then have "i div 2 ^ ?d = 0" by simp
  with i have tch: "touched (leafMap ups Map.empty) ?d 0"
    by (auto simp: touched_def dom_leafMap)
  have batch: "root (snd (updateElements H db_ok t ups)) = finalNode H ?rd (leafMap ups Map.empty) ?d 0"
    using updateElements_root [OF assms(4), of H db_ok t] assms(2) tch by simp
  have "root (updateSequential H t ups') = finalNode H ?rd (leafMap ups' Map.empty) ?d 0"
  proof -
    have "(\<forall>k x. k \<le> depth t \<longrightarrow>
            readNode H (updateSequential H t ups') x k = finalNode H ?rd (leafMap ups' Map.empty) k x)
         \<and> (ups' \<noteq> [] \<longrightarrow>
              root (updateSequential H t ups') = finalNode H ?rd (leafMap ups' Map.empty) (depth t) 0)"
      using dist'
    proof (rule updateSequential_finalNode)
      fix j assume "j \<in> fst ` set ups'"
      with set assms(2) show "0 \<le> j \<and> j < 2 ^ depth t \<and> j \<notin> dom Map.empty" by auto
    next
      fix k x show "readNode H t x k = finalNode H ?rd Map.empty k x" by simp
    qed
    with ne' show ?thesis by blast
  qed
  with batch m show ?thesis by simp
qed

subsection \<open>The empty update (C8)\<close>

text \<open>Claim C8.  \<^verbatim>\<open>updateElements([])\<close> returns the current root and leaves the object as it
  was: the root, the cache and the store are untouched, whatever the store would answer.\<close>

theorem updateElements_empty: "updateElements H db_ok t [] = (Inr (root t), t)"
  by (simp add: updateElements_def)

subsection \<open>Batch and sequential updates (C2)\<close>

text \<open>Claim C2, as amended.  For every list of pairs with distinct indices, all of them in
  the range of the leaves (\<open>0 \<le> i < 2 ^ depth\<close>), one call of \<^verbatim>\<open>updateElements\<close> returns
  the root that the tree has after one \<^verbatim>\<open>updateElement\<close> per pair, in any order of the
  pairs, from the same tree.\<close>

theorem updateElements_eq_sequential:
  assumes "distinct (map fst ups)"
    and "\<forall>i \<in> fst ` set ups. 0 \<le> i \<and> i < 2 ^ depth t"
    and "mset ups' = mset ups"
    and "depth t \<le> MAX_DEPTH"
  shows "fst (updateElements H True t ups) = Inr (getRoot (updateSequential H t ups'))"
proof (cases "ups = []")
  case True
  with assms(3) show ?thesis by (simp add: updateElements_def getRoot_def)
next
  case False
  have "root (snd (updateElements H True t ups)) = root (updateSequential H t ups')"
    using assms(1-3) False by (rule updateElements_root_sequential)
  moreover from assms(4) have "\<not> 2 ^ 32 \<le> depth t" by (simp add: MAX_DEPTH_def)
  ultimately show ?thesis
    by (simp add: updateElements_fst [OF False] getRoot_def)
qed

text \<open>Claim C2, as amended, for the two leaves of a tree of depth 1, in both orders.\<close>

theorem updateElements_eq_sequential_witness:
  "fst (updateElements toyHasher True tree1 [(0, [5]), (1, [7])])
   = Inr (getRoot (updateSequential toyHasher tree1 [(1, [7]), (0, [5])]))"
proof -
  have "distinct (map fst [(0::int, [5::8 word]), (1, [7])])" by simp
  moreover have "\<forall>i \<in> fst ` set [(0::int, [5::8 word]), (1, [7])]. 0 \<le> i \<and> i < 2 ^ depth tree1"
    by simp
  moreover have "mset [(1::int, [7::8 word]), (0, [5])] = mset [(0, [5]), (1, [7])]"
    by simp
  moreover have "depth tree1 \<le> MAX_DEPTH" by (simp add: MAX_DEPTH_def)
  ultimately show ?thesis by (rule updateElements_eq_sequential)
qed

lemma newRoot_tree1_2: "newRoot toyHasher tree1 2 [5] = [6, 1]"
  by (simp add: newRoot_def siblings_def isRight_iff) (simp add: toyHasher_def)

lemma untouched_tree1_2: "\<not> touched (leafMap [(2, [5])] Map.empty) (depth tree1) 0"
  by (simp add: touched_def leafMap_def)

lemma root_tree1 [simp]: "root tree1 = [1, 1]"
  by (simp add: tree1_def)

lemma batch_tree1_2: "fst (updateElements toyHasher True tree1 [(2, [5])]) = Inr [1, 1]"
proof -
  have "root (snd (updateElements toyHasher True tree1 [(2, [5])])) = root tree1"
    using untouched_tree1_2 by (subst updateElements_root) simp_all
  then show ?thesis by (simp add: updateElements_fst)
qed

text \<open>Claim C2 as stated fails at the list \<open>[(2, [5])]\<close> on a tree of depth 1: index 2 climbs
  to node \<open>(1, 1)\<close>, so \<^verbatim>\<open>updateElements\<close> finds no pending value for \<open>(1, 0)\<close> and returns
  the old root, while \<^verbatim>\<open>updateElement\<close> returns the digest it computed.\<close>

theorem updateElements_out_of_range_counterexample:
  "fst (updateElements toyHasher True tree1 [(2, [5])]) = Inr [1, 1]
   \<and> getRoot (updateSequential toyHasher tree1 [(2, [5])]) = [6, 1]"
  by (simp add: batch_tree1_2 getRoot_def updateElement_root newRoot_tree1_2)

subsection \<open>What a commit stores\<close>

lemma batch_apply_single [simp]: "batch_apply [(k, v)] s = s(k \<mapsto> v)"
  by (simp add: batch_apply_def)

lemma batch_apply_snoc: "batch_apply (b @ [(k, v)]) s = (batch_apply b s)(k \<mapsto> v)"
  by simp

lemma batch_apply_lookup:
  "batch_apply b s k = (case map_of (rev b) k of Some v \<Rightarrow> Some v | None \<Rightarrow> s k)"
proof (induction b rule: rev_induct)
  case Nil
  show ?case by (simp add: batch_apply_def)
next
  case (snoc x b)
  obtain k' v' where x: "x = (k', v')" by (cases x)
  from snoc show ?case by (simp add: x batch_apply_snoc)
qed

lemma committed_node:
  assumes "staged t b" and "k \<in> fst ` set b" and "k \<noteq> nm"
  shows "batch_apply (batch_put b nm data) s k = cache t k"
proof -
  from assms(1,2) have "map_of (rev b) k = cache t k" unfolding staged_def by (rule bspec)
  moreover from assms(1,2) have "cache t k \<noteq> None" by (rule staged_dom)
  ultimately show ?thesis
    using assms(3) by (auto simp: batch_apply_lookup batch_put_def)
qed

lemma committed_meta: "batch_apply (batch_put b nm data) s nm = Some data"
  by (simp add: batch_put_def batch_apply_snoc)

lemma cache_readNode:
  "cache t (nodeKey (name t) h i) \<noteq> None \<Longrightarrow>
   cache t (nodeKey (name t) h i) = Some (readNode H t i h)"
  by (auto simp: readNode_def getNode_def Let_def)

lemma committed_read:
  assumes "staged t b" and "nodeKey (name t) h i \<in> fst ` set b"
  shows "batch_apply (batch_put b (name t) data) s (nodeKey (name t) h i) = Some (readNode H t i h)"
proof -
  from assms have "cache t (nodeKey (name t) h i) \<noteq> None" by (rule staged_dom)
  then have "cache t (nodeKey (name t) h i) = Some (readNode H t i h)" by (rule cache_readNode)
  with committed_node [OF assms, of "name t" data s] show ?thesis by simp
qed

lemma loopResult_leaf: "readNode H (fst (snd (loopResult H t i v))) i 0 = hash H v"
proof -
  have "readNode H (fst (snd (loopResult H t i v))) i 0 = readNode H (fst (leafState H t i v)) i 0"
    unfolding loopResult_def by (rule updateElement_loop_read_other) simp
  then show ?thesis by (simp add: leafState_def)
qed

lemma updateElement_commits:
  assumes "depth t \<le> MAX_DEPTH"
  shows "db (snd (updateElement H True t i v)) (nodeKey (name t) 0 i) = Some (hash H v)"
    and "\<exists>data. metaData (snd (updateElement H True t i v)) = Inr data \<and>
           db (snd (updateElement H True t i v)) (name t) = Some data"
proof -
  from assms have d: "\<not> 2 ^ 32 \<le> depth t" by (simp add: MAX_DEPTH_def)
  define r where "r = loopResult H t i v"
  have st: "staged (fst (snd r)) (snd (snd r))"
    and key: "nodeKey (name (fst (snd r))) 0 i \<in> fst ` set (snd (snd r))"
    and nm: "name (fst (snd r)) = name t"
    unfolding r_def by (simp_all add: loopResult_frame)
  from committed_read [OF st key, of _ _ H] nm
  have "batch_apply (batch_put (snd (snd r)) (name t) data) s (nodeKey (name t) 0 i)
        = Some (hash H v)" for data s
    by (simp add: r_def loopResult_leaf)
  with d show "db (snd (updateElement H True t i v)) (nodeKey (name t) 0 i) = Some (hash H v)"
    by (simp add: updateElement_unfold Let_def r_def)
  from d show "\<exists>data. metaData (snd (updateElement H True t i v)) = Inr data \<and>
           db (snd (updateElement H True t i v)) (name t) = Some data"
    by (simp add: updateElement_unfold Let_def metaData_cases committed_meta loopResult_frame)
qed

lemma updateLeaves_read_other:
  "x \<notin> fst ` set ups \<or> k \<noteq> 0 \<Longrightarrow>
   readNode H (fst (updateLeaves H ups t b nu)) x k = readNode H t x k"
proof (induction ups arbitrary: t b nu)
  case Nil
  show ?case by simp
next
  case (Cons u ups)
  from Cons.prems have "x \<notin> fst ` set ups \<or> k \<noteq> 0" by auto
  from Cons.IH [OF this] Cons.prems show ?case
    by (auto simp: Let_def)
qed

lemma updateLeaves_leaf_reads:
  "i \<in> fst ` set ups \<Longrightarrow>
   \<exists>v'. (i, v') \<in> set ups \<and> readNode H (fst (updateLeaves H ups t b nu)) i 0 = hash H v'"
proof (induction ups arbitrary: t b nu)
  case Nil
  then show ?case by simp
next
  case (Cons u ups)
  let ?t = "fst (updateNode t (fst u) 0 (hash H (snd u)) b)"
  let ?b = "snd (updateNode t (fst u) 0 (hash H (snd u)) b)"
  let ?nu = "AList.update (updKey 0 (fst u)) (hash H (snd u)) nu"
  have eq: "updateLeaves H (u # ups) t b nu = updateLeaves H ups ?t ?b ?nu"
    by (simp add: Let_def)
  show ?case
  proof (cases "i \<in> fst ` set ups")
    case True
    from Cons.IH [OF True, of ?t ?b ?nu] show ?thesis
      unfolding eq by auto
  next
    case False
    with Cons.prems have i: "i = fst u" by auto
    from False have "readNode H (fst (updateLeaves H ups ?t ?b ?nu)) i 0 = readNode H ?t i 0"
      by (intro updateLeaves_read_other) simp
    also have "\<dots> = hash H (snd u)" by (simp add: i)
    finally have "readNode H (fst (updateLeaves H (u # ups) t b nu)) i 0 = hash H (snd u)"
      unfolding eq .
    moreover have "(i, snd u) \<in> set (u # ups)" by (simp add: i)
    ultimately show ?thesis by blast
  qed
qed

lemma batchLevels_leaves:
  assumes "batchLevels H t ups = Inr (t', b', nu')"
  shows "staged t' b'" and "sameFrame t t'"
    and "i \<in> fst ` set ups \<Longrightarrow> nodeKey (name t) 0 i \<in> fst ` set b'"
    and "i \<in> fst ` set ups \<Longrightarrow> \<exists>v'. (i, v') \<in> set ups \<and> readNode H t' i 0 = hash H v'"
proof -
  let ?l = "batchLeaves H t ups"
  from updateLeaves_frame [of t H ups "[]" "[]"]
  have f: "sameFrame t (fst ?l)"
    and st: "staged (fst ?l) (fst (snd ?l))"
    and wf: "wfKeys (snd (snd ?l))"
    and keys: "(\<lambda>i. nodeKey (name t) 0 i) ` fst ` set ups \<subseteq> fst ` set (fst (snd ?l))"
    by (simp_all add: batchLeaves_def)
  from updateLevels_no_NaN [OF wf, of H 0 "fst ?l" "fst (snd ?l)"] assms
  have f': "sameFrame (fst ?l) t'" and st': "staged t' b'"
    and sb: "set (fst (snd ?l)) \<subseteq> set b'"
    and r0: "\<And>x. readNode H t' x 0 = readNode H (fst ?l) x 0"
    using st by (auto simp: batchLevels_def)
  show "staged t' b'" by (rule st')
  show "sameFrame t t'" using f f' by (rule sameFrame_trans)
  show "nodeKey (name t) 0 i \<in> fst ` set b'" if "i \<in> fst ` set ups"
    using that keys sb by auto
  show "\<exists>v'. (i, v') \<in> set ups \<and> readNode H t' i 0 = hash H v'" if "i \<in> fst ` set ups"
    using updateLeaves_leaf_reads [OF that, of H t "[]" "[]"] r0 [of i]
    by (simp add: batchLeaves_def)
qed

lemma updateElements_commits:
  assumes "depth t \<le> MAX_DEPTH" and "ups \<noteq> []"
  shows "i \<in> fst ` set ups \<Longrightarrow>
         \<exists>v'. (i, v') \<in> set ups \<and>
           db (snd (updateElements H True t ups)) (nodeKey (name t) 0 i) = Some (hash H v')"
    and "\<exists>data. metaData (snd (updateElements H True t ups)) = Inr data \<and>
           db (snd (updateElements H True t ups)) (name t) = Some data"
proof -
  from batchLevels_structure [of H t ups] obtain t' b' nu'
    where r: "batchLevels H t ups = Inr (t', b', nu')" by blast
  note l = batchLevels_leaves [OF r]
  from l(2) have fr: "name t' = name t" "depth t' = depth t" by (simp_all add: sameFrame_def)
  with assms(1) have d: "\<not> 2 ^ 32 \<le> depth t'" by (simp add: MAX_DEPTH_def)
  show "\<exists>v'. (i, v') \<in> set ups \<and>
           db (snd (updateElements H True t ups)) (nodeKey (name t) 0 i) = Some (hash H v')"
    if i: "i \<in> fst ` set ups"
  proof -
    from l(3) [OF i] fr have key: "nodeKey (name t') 0 i \<in> fst ` set b'" by simp
    from l(4) [OF i] obtain v' where v': "(i, v') \<in> set ups" "readNode H t' i 0 = hash H v'"
      by blast
    from committed_read [OF l(1) key, of _ _ H] v'(2)
    have "batch_apply (batch_put b' (name t') data) s (nodeKey (name t') 0 i) = Some (hash H v')"
      for data s by simp
    with d fr v'(1) show ?thesis
      by (auto simp: updateElements_unfold [OF assms(2) r] Let_def)
  qed
  from d show "\<exists>data. metaData (snd (updateElements H True t ups)) = Inr data \<and>
           db (snd (updateElements H True t ups)) (name t) = Some data"
    by (simp add: updateElements_unfold [OF assms(2) r] Let_def metaData_cases committed_meta fr)
qed

lemma updateElement_cache_leaf:
  "cache (snd (updateElement H db_ok t i v)) (nodeKey (name t) 0 i) = Some (hash H v)"
proof -
  define r where "r = loopResult H t i v"
  have st: "staged (fst (snd r)) (snd (snd r))"
    and key: "nodeKey (name (fst (snd r))) 0 i \<in> fst ` set (snd (snd r))"
    unfolding r_def by (simp_all add: loopResult_frame)
  from st key have "cache (fst (snd r)) (nodeKey (name (fst (snd r))) 0 i) \<noteq> None"
    by (rule staged_dom)
  then have "cache (fst (snd r)) (nodeKey (name (fst (snd r))) 0 i)
             = Some (readNode H (fst (snd r)) i 0)"
    by (rule cache_readNode)
  then have "cache (fst (snd r)) (nodeKey (name t) 0 i) = Some (hash H v)"
    by (simp add: r_def loopResult_frame loopResult_leaf)
  then show ?thesis
    by (simp add: updateElement_unfold Let_def r_def)
qed

lemma updateElements_cache_leaf:
  assumes "ups \<noteq> []" and "i \<in> fst ` set ups"
  shows "\<exists>v'. (i, v') \<in> set ups \<and>
           cache (snd (updateElements H db_ok t ups)) (nodeKey (name t) 0 i) = Some (hash H v')"
proof -
  from batchLevels_structure [of H t ups] obtain t' b' nu'
    where r: "batchLevels H t ups = Inr (t', b', nu')" by blast
  note l = batchLevels_leaves [OF r]
  from l(2) have fr: "name t' = name t" by (simp add: sameFrame_def)
  from l(3) [OF assms(2)] fr have key: "nodeKey (name t') 0 i \<in> fst ` set b'" by simp
  from l(4) [OF assms(2)] obtain v' where v': "(i, v') \<in> set ups" "readNode H t' i 0 = hash H v'"
    by blast
  from l(1) key have "cache t' (nodeKey (name t') 0 i) \<noteq> None" by (rule staged_dom)
  then have "cache t' (nodeKey (name t') 0 i) = Some (readNode H t' i 0)"
    by (rule cache_readNode)
  with v'(2) fr have "cache t' (nodeKey (name t) 0 i) = Some (hash H v')" by simp
  then have "cache (snd (updateElements H db_ok t ups)) (nodeKey (name t) 0 i) = Some (hash H v')"
    by (simp add: updateElements_unfold [OF assms(1) r] Let_def)
  with v'(1) show ?thesis by blast
qed

subsection \<open>A rejected commit (C4)\<close>

text \<open>Claim C4.  When the store rejects the batch, \<^verbatim>\<open>updateElement\<close> rejects with the error of
  the store, and the object is not rolled back: its root is the digest recomputed for the
  update (the one the accepted update returns), its cache holds the hash of the value
  under the key of the leaf and is the cache of the accepted update, while the store is
  the one before the call.  The same holds of \<^verbatim>\<open>updateElements\<close> on a list that is not
  empty: the error is returned, the root is the one the accepted call returns (for
  distinct indices of leaves, the root after one \<^verbatim>\<open>updateElement\<close> per pair), the cache
  holds the hash of a submitted value under the key of every submitted leaf, and the
  store is the one before the call.  Indices are safe integers.\<close>

theorem commit_failure_keeps_new_state:
  assumes "depth t \<le> MAX_DEPTH" and "safeInteger i" and "\<forall>u \<in> set ups. safeInteger (fst u)"
  shows "fst (updateElement H False t i v) = Inl DbError
         \<and> getRoot (snd (updateElement H False t i v)) = newRoot H t i v
         \<and> fst (updateElement H True t i v) = Inr (newRoot H t i v)
         \<and> cache (snd (updateElement H False t i v)) (nodeKey (name t) 0 i) = Some (hash H v)
         \<and> cache (snd (updateElement H False t i v)) = cache (snd (updateElement H True t i v))
         \<and> db (snd (updateElement H False t i v)) = db t
         \<and> (ups \<noteq> [] \<longrightarrow>
              fst (updateElements H False t ups) = Inl DbError
              \<and> fst (updateElements H True t ups) = Inr (getRoot (snd (updateElements H False t ups)))
              \<and> (distinct (map fst ups) \<and> (\<forall>j \<in> fst ` set ups. 0 \<le> j \<and> j < 2 ^ depth t) \<longrightarrow>
                    getRoot (snd (updateElements H False t ups)) = getRoot (updateSequential H t ups))
              \<and> (\<forall>u \<in> set ups. \<exists>v'. (fst u, v') \<in> set ups \<and>
                    cache (snd (updateElements H False t ups)) (nodeKey (name t) 0 (fst u))
                      = Some (hash H v'))
              \<and> cache (snd (updateElements H False t ups)) = cache (snd (updateElements H True t ups))
              \<and> db (snd (updateElements H False t ups)) = db t)"
proof -
  from assms(1) have d: "\<not> 2 ^ 32 \<le> depth t" by (simp add: MAX_DEPTH_def)
  have one: "fst (updateElement H False t i v) = Inl DbError
         \<and> getRoot (snd (updateElement H False t i v)) = newRoot H t i v
         \<and> fst (updateElement H True t i v) = Inr (newRoot H t i v)
         \<and> cache (snd (updateElement H False t i v)) = cache (snd (updateElement H True t i v))
         \<and> db (snd (updateElement H False t i v)) = db t"
    using d by (simp add: updateElement_unfold Let_def loopResult_frame getRoot_def loopResult_root)
  have leaf: "cache (snd (updateElement H False t i v)) (nodeKey (name t) 0 i) = Some (hash H v)"
    by (rule updateElement_cache_leaf)
  have many: "fst (updateElements H False t ups) = Inl DbError
              \<and> fst (updateElements H True t ups) = Inr (getRoot (snd (updateElements H False t ups)))
              \<and> cache (snd (updateElements H False t ups)) = cache (snd (updateElements H True t ups))
              \<and> db (snd (updateElements H False t ups)) = db t" if ne: "ups \<noteq> []"
  proof -
    from batchLevels_structure [of H t ups] obtain t' b' nu'
      where r: "batchLevels H t ups = Inr (t', b', nu')" and f: "sameFrame t t'" by blast
    from f d show ?thesis
      by (simp add: updateElements_unfold [OF ne r] Let_def sameFrame_def getRoot_def)
  qed
  have seq: "getRoot (snd (updateElements H False t ups)) = getRoot (updateSequential H t ups)"
    if "ups \<noteq> []" "distinct (map fst ups)" "\<forall>j \<in> fst ` set ups. 0 \<le> j \<and> j < 2 ^ depth t"
    unfolding getRoot_def using that(2,3) refl that(1) by (rule updateElements_root_sequential)
  have leaves: "\<forall>u \<in> set ups. \<exists>v'. (fst u, v') \<in> set ups \<and>
                    cache (snd (updateElements H False t ups)) (nodeKey (name t) 0 (fst u))
                      = Some (hash H v')" if "ups \<noteq> []"
    using updateElements_cache_leaf [OF that, of _ H False t] by simp
  from one leaf many seq leaves show ?thesis by blast
qed

lemma cache_tree1 [simp]: "cache tree1 k = None"
  by (simp add: tree1_def)

lemma db_tree1 [simp]: "db tree1 k = None"
  by (simp add: tree1_def)

text \<open>Claim C4 on an empty tree of depth 1: the root and the cache of the leaf have changed,
  the metadata was not written.\<close>

theorem commit_failure_keeps_new_state_witness:
  "depth tree1 \<le> MAX_DEPTH \<and> safeInteger 0
   \<and> fst (updateElement toyHasher False tree1 0 [5]) = Inl DbError
   \<and> getRoot tree1 = [1, 1]
   \<and> getRoot (snd (updateElement toyHasher False tree1 0 [5])) = [6, 1]
   \<and> cache tree1 (nodeKey ''t'' 0 0) = None
   \<and> cache (snd (updateElement toyHasher False tree1 0 [5])) (nodeKey ''t'' 0 0) = Some [6]
   \<and> db (snd (updateElement toyHasher False tree1 0 [5])) (name tree1) = None
   \<and> fst (updateElements toyHasher False tree1 [(0, [5])]) = Inl DbError
   \<and> cache (snd (updateElements toyHasher False tree1 [(0, [5])])) (nodeKey ''t'' 0 0) = Some [6]"
proof -
  have d: "depth tree1 \<le> MAX_DEPTH" by (simp add: MAX_DEPTH_def)
  have s: "safeInteger 0" by (simp add: safeInteger_def)
  have ss: "\<forall>u \<in> set [(0::int, [5::8 word])]. safeInteger (fst u)" by (simp add: safeInteger_def)
  have n: "name tree1 = ''t''" by (simp add: tree1_def)
  have h: "hash toyHasher [5] = [6]" by (simp add: toyHasher_def)
  have ne: "[(0::int, [5::8 word])] \<noteq> []" by simp
  note c4 = commit_failure_keeps_new_state [OF d s ss, of toyHasher "[5]"]
  note r1 = c4 [THEN conjunct2]
  note r3 = r1 [THEN conjunct2, THEN conjunct2]
  note r5 = r3 [THEN conjunct2, THEN conjunct2]
  note m = r5 [THEN conjunct2, THEN mp, OF ne]
  note m3 = m [THEN conjunct2, THEN conjunct2, THEN conjunct2]
  from c4 [THEN conjunct1]
  have a1: "fst (updateElement toyHasher False tree1 0 [5]) = Inl DbError" .
  from r1 [THEN conjunct1]
  have a2: "getRoot (snd (updateElement toyHasher False tree1 0 [5])) = [6, 1]"
    by (simp add: newRoot_tree1_0)
  from r3 [THEN conjunct1]
  have a3: "cache (snd (updateElement toyHasher False tree1 0 [5])) (nodeKey ''t'' 0 0) = Some [6]"
    by (simp add: n h)
  from r5 [THEN conjunct1]
  have a4: "db (snd (updateElement toyHasher False tree1 0 [5])) (name tree1) = None"
    by simp
  from m [THEN conjunct1]
  have a5: "fst (updateElements toyHasher False tree1 [(0, [5])]) = Inl DbError" .
  from m3 [THEN conjunct1]
  have a6: "cache (snd (updateElements toyHasher False tree1 [(0, [5])])) (nodeKey ''t'' 0 0)
            = Some [6]"
    by (simp add: n h)
  from d s a1 a2 a3 a4 a5 a6 show ?thesis by (simp add: getRoot_def)
qed

subsection \<open>Arguments are not validated (C10)\<close>

text \<open>Claim C10, as amended.  Neither method validates its arguments: for every index that
  is a safe integer, in the range of the leaves or not, and every value of any length,
  \<^verbatim>\<open>updateElement\<close> completes when the store accepts the batch: it assigns and returns
  the root recomputed along the path of the index, and the store then holds the hash of
  the value under the key of the leaf and the metadata of the tree under its name.
  \<^verbatim>\<open>updateElements\<close> on a list that is not empty completes likewise, returns the root it
  assigned, and commits the hash of a submitted value under the key of every submitted
  leaf and the metadata; for distinct indices of leaves its root is the root after one
  \<^verbatim>\<open>updateElement\<close> per pair.  (The recomputed root may be the root the tree had.)\<close>

theorem updates_accept_any_argument:
  assumes "depth t \<le> MAX_DEPTH" and "safeInteger i" and "\<forall>u \<in> set ups. safeInteger (fst u)"
  shows "fst (updateElement H True t i v) = Inr (newRoot H t i v)
         \<and> getRoot (snd (updateElement H True t i v)) = newRoot H t i v
         \<and> db (snd (updateElement H True t i v)) (nodeKey (name t) 0 i) = Some (hash H v)
         \<and> (\<exists>data. metaData (snd (updateElement H True t i v)) = Inr data \<and>
               db (snd (updateElement H True t i v)) (name t) = Some data)
         \<and> (ups \<noteq> [] \<longrightarrow>
              fst (updateElements H True t ups) = Inr (getRoot (snd (updateElements H True t ups)))
              \<and> (distinct (map fst ups) \<and> (\<forall>j \<in> fst ` set ups. 0 \<le> j \<and> j < 2 ^ depth t) \<longrightarrow>
                    getRoot (snd (updateElements H True t ups)) = getRoot (updateSequential H t ups))
              \<and> (\<forall>u \<in> set ups. \<exists>v'. (fst u, v') \<in> set ups \<and>
                    db (snd (updateElements H True t ups)) (nodeKey (name t) 0 (fst u))
                      = Some (hash H v'))
              \<and> (\<exists>data. metaData (snd (updateElements H True t ups)) = Inr data \<and>
                    db (snd (updateElements H True t ups)) (name t) = Some data))"
proof -
  from assms(1) have d: "\<not> 2 ^ 32 \<le> depth t" by (simp add: MAX_DEPTH_def)
  have "fst (updateElement H True t i v) = Inr (newRoot H t i v)"
    using d by (simp add: updateElement_fst)
  moreover have "getRoot (snd (updateElement H True t i v)) = newRoot H t i v"
    by (simp add: updateElement_root getRoot_def)
  moreover note updateElement_commits [OF assms(1), of H i v]
  moreover have "fst (updateElements H True t ups) = Inr (getRoot (snd (updateElements H True t ups)))"
    if "ups \<noteq> []"
    using d by (simp add: updateElements_fst [OF that] getRoot_def)
  moreover have "getRoot (snd (updateElements H True t ups)) = getRoot (updateSequential H t ups)"
    if "ups \<noteq> []" "distinct (map fst ups)" "\<forall>j \<in> fst ` set ups. 0 \<le> j \<and> j < 2 ^ depth t"
    unfolding getRoot_def using that(2,3) refl that(1) by (rule updateElements_root_sequential)
  moreover have "\<forall>u \<in> set ups. \<exists>v'. (fst u, v') \<in> set ups \<and>
                    db (snd (updateElements H True t ups)) (nodeKey (name t) 0 (fst u))
                      = Some (hash H v')" if "ups \<noteq> []"
    using updateElements_commits(1) [OF assms(1) that, of _ H] by simp
  moreover note updateElements_commits(2) [OF assms(1), of ups H]
  ultimately show ?thesis by blast
qed

lemma newRoot_tree1_zero: "newRoot toyHasher tree1 0 (alloc 64) = [1, 1]"
  by (simp add: newRoot_def siblings_def isRight_iff)
     (simp add: toyHasher_def alloc_def sum_list_replicate)

lemma newRoot_tree1_7: "newRoot toyHasher tree1 7 [5, 5, 5] = [1, 16]"
  by (simp add: newRoot_def siblings_def isRight_iff) (simp add: toyHasher_def)

text \<open>Claim C10, as amended, at index 7 of a tree of depth 1, with a value of three bytes: the
  root changes from \<open>[1, 1]\<close> to \<open>[1, 16]\<close>; and for a list with a negative index and an
  empty value.\<close>

theorem updates_accept_any_argument_witness:
  "depth tree1 \<le> MAX_DEPTH \<and> safeInteger 7 \<and> safeInteger (- 3)
   \<and> getRoot tree1 = [1, 1]
   \<and> fst (updateElement toyHasher True tree1 7 [5, 5, 5]) = Inr [1, 16]
   \<and> getRoot (snd (updateElement toyHasher True tree1 7 [5, 5, 5])) = [1, 16]
   \<and> db (snd (updateElement toyHasher True tree1 7 [5, 5, 5])) (nodeKey ''t'' 0 7) = Some [16]
   \<and> fst (updateElements toyHasher True tree1 [(7, [5, 5, 5]), (- 3, [])])
       = Inr (getRoot (snd (updateElements toyHasher True tree1 [(7, [5, 5, 5]), (- 3, [])])))"
proof -
  have d: "depth tree1 \<le> MAX_DEPTH" by (simp add: MAX_DEPTH_def)
  have s: "safeInteger 7" "safeInteger (- 3)" by (simp_all add: safeInteger_def)
  have ss: "\<forall>u \<in> set [(7::int, [5, 5, 5::8 word]), (- 3, [])]. safeInteger (fst u)"
    by (simp add: safeInteger_def)
  have n: "name tree1 = ''t''" by (simp add: tree1_def)
  have h: "hash toyHasher [5, 5, 5] = [16]" by (simp add: toyHasher_def)
  have ne: "[(7::int, [5, 5, 5::8 word]), (- 3, [])] \<noteq> []" by simp
  note c10 = updates_accept_any_argument [OF d s(1) ss, of toyHasher "[5, 5, 5]"]
  note r1 = c10 [THEN conjunct2]
  note r2 = r1 [THEN conjunct2]
  note m = r2 [THEN conjunct2, THEN conjunct2, THEN mp, OF ne]
  from c10 [THEN conjunct1]
  have a1: "fst (updateElement toyHasher True tree1 7 [5, 5, 5]) = Inr [1, 16]"
    by (simp add: newRoot_tree1_7)
  from r1 [THEN conjunct1]
  have a2: "getRoot (snd (updateElement toyHasher True tree1 7 [5, 5, 5])) = [1, 16]"
    by (simp add: newRoot_tree1_7)
  from r2 [THEN conjunct1]
  have a3: "db (snd (updateElement toyHasher True tree1 7 [5, 5, 5])) (nodeKey ''t'' 0 7) = Some [16]"
    by (simp add: n h)
  from m [THEN conjunct1]
  have a4: "fst (updateElements toyHasher True tree1 [(7, [5, 5, 5]), (- 3, [])])
       = Inr (getRoot (snd (updateElements toyHasher True tree1 [(7, [5, 5, 5]), (- 3, [])])))" .
  from d s a1 a2 a3 a4 show ?thesis by (simp add: getRoot_def)
qed

text \<open>Claim C10 as stated fails in its last part, that the root changes: writing 64 zero bytes
  at index 0 of an empty tree commits and returns the root the tree had, and so does
  \<^verbatim>\<open>updateElements\<close> at index 2 of a tree of depth 1.\<close>

theorem updates_root_unchanged_counterexample:
  "getRoot tree1 = [1, 1]
   \<and> fst (updateElement toyHasher True tree1 0 (alloc 64)) = Inr [1, 1]
   \<and> getRoot (snd (updateElement toyHasher True tree1 0 (alloc 64))) = [1, 1]
   \<and> fst (updateElements toyHasher True tree1 [(2, [5])]) = Inr [1, 1]"
  by (simp add: getRoot_def updateElement_fst updateElement_root newRoot_tree1_zero batch_tree1_2)

end
